theory Spec2Isabelle
  imports Complex_Main "HOL-Library.Log_Nat" "HOL-Library.Word"
begin

section \<open>People motion and zone counter: a shallow embedding\<close>

text \<open>
  The program under study is \<^verbatim>\<open>people_motion_zones.py\<close>. Its pure helpers
  (\<^verbatim>\<open>inside_polygon\<close>, \<^verbatim>\<open>centroid_of_bbox\<close>, \<^verbatim>\<open>compute_motion_percent\<close>,
  \<^verbatim>\<open>save_zones\<close>, \<^verbatim>\<open>load_zones\<close>) become HOL functions; the body of the
  \<^verbatim>\<open>while True\<close> loop of \<^verbatim>\<open>main\<close> becomes a function on an explicit state.
  Python exceptions are values of type \<open>pyerror\<close>, returned on the left of a sum.
\<close>

datatype pyerror =
    OverflowError
  | ZeroDivisionError
  | ValueError
  | KeyError
  | TypeError
  | AttributeError
  | JSONDecodeError

subsection \<open>Python floats (IEEE 754 binary64)\<close>

text \<open>
  Python's \<^verbatim>\<open>int\<close> is unbounded and is modelled by \<open>int\<close>. Python's \<^verbatim>\<open>float\<close>
  is a binary64 number: a finite value is kept as the rational it denotes, the negative
  zero, the two infinities and the not-a-number are separate constructors. Every
  arithmetic operation computes the exact rational result and rounds it once to the
  nearest representable value, ties to even, as the hardware does.
\<close>

datatype double = Fin rat | NegZero | PInf | NInf | NaN

definition pow2 :: "int \<Rightarrow> rat" where
  "pow2 e = (if 0 \<le> e then 2 ^ nat e else 1 / 2 ^ nat (- e))"

text \<open>The binary exponent \<open>\<lfloor>log\<^sub>2 q\<rfloor>\<close> of a positive rational, from the bit lengths
  of its numerator and denominator.\<close>

definition ilog2 :: "rat \<Rightarrow> int" where
  "ilog2 q = (let (a, b) = quotient_of q; e0 = bitlen a - bitlen b
              in if pow2 e0 \<le> q then e0 else e0 - 1)"

definition round_half_even :: "rat \<Rightarrow> int" where
  "round_half_even q =
     (let f = \<lfloor>q\<rfloor>; r = q - of_int f
      in if r < 1 / 2 then f else if 1 / 2 < r then f + 1
         else if even f then f else f + 1)"

text \<open>Rounding to the binary64 grid: 53 significant bits, the spacing never finer than
  \<open>2\<^sup>-\<^sup>1\<^sup>0\<^sup>7\<^sup>4\<close> (subnormal numbers). The exponent range is not yet cut off above.\<close>

definition round_binary64 :: "rat \<Rightarrow> rat" where
  "round_binary64 q =
     (if q = 0 then 0
      else let p = max (ilog2 \<bar>q\<bar>) (- 1022) - 52
           in of_int (round_half_even (q / pow2 p)) * pow2 p)"

text \<open>The result of a hardware operation whose exact value is \<open>q\<close>: a rounded value of
  magnitude \<open>2\<^sup>1\<^sup>0\<^sup>2\<^sup>4\<close> or more overflows to an infinity; a zero result takes the sign
  \<open>neg\<close> that the operation prescribes.\<close>

definition to_double :: "bool \<Rightarrow> rat \<Rightarrow> double" where
  "to_double neg q =
     (let r = round_binary64 q
      in if r = 0 then (if neg then NegZero else Fin 0)
         else if 1024 \<le> ilog2 \<bar>r\<bar> then (if 0 < r then PInf else NInf)
         else Fin r)"

definition signbit :: "double \<Rightarrow> bool" where
  "signbit d = (case d of Fin q \<Rightarrow> q < 0 | NegZero \<Rightarrow> True | NInf \<Rightarrow> True
                | PInf \<Rightarrow> False | NaN \<Rightarrow> False)"

definition is_zero :: "double \<Rightarrow> bool" where
  "is_zero d = (d = Fin 0 \<or> d = NegZero)"

definition is_inf :: "double \<Rightarrow> bool" where
  "is_inf d = (d = PInf \<or> d = NInf)"

text \<open>The rational denoted by a finite float (both zeros denote 0).\<close>

definition fval :: "double \<Rightarrow> rat" where
  "fval d = (case d of Fin q \<Rightarrow> q | _ \<Rightarrow> 0)"

definition inf_of_sign :: "bool \<Rightarrow> double" where
  "inf_of_sign neg = (if neg then NInf else PInf)"

definition zero_of_sign :: "bool \<Rightarrow> double" where
  "zero_of_sign neg = (if neg then NegZero else Fin 0)"

text \<open>\<^verbatim>\<open>a + b\<close> on floats. An exact zero sum is negative only when both operands
  are the negative zero.\<close>

definition fadd :: "double \<Rightarrow> double \<Rightarrow> double" where
  "fadd a b =
     (if a = NaN \<or> b = NaN then NaN
      else if is_inf a then (if is_inf b \<and> a \<noteq> b then NaN else a)
      else if is_inf b then b
      else to_double (a = NegZero \<and> b = NegZero) (fval a + fval b))"

text \<open>\<^verbatim>\<open>a * b\<close> on floats.\<close>

definition fmul :: "double \<Rightarrow> double \<Rightarrow> double" where
  "fmul a b =
     (if a = NaN \<or> b = NaN then NaN
      else if is_inf a \<or> is_inf b then
        (if is_zero a \<or> is_zero b then NaN else inf_of_sign (signbit a \<noteq> signbit b))
      else to_double (signbit a \<noteq> signbit b) (fval a * fval b))"

text \<open>\<^verbatim>\<open>a / b\<close> on floats: Python raises \<^verbatim>\<open>ZeroDivisionError\<close> for a zero
  divisor before the hardware is asked.\<close>

definition fdiv :: "double \<Rightarrow> double \<Rightarrow> pyerror + double" where
  "fdiv a b =
     (if is_zero b then Inl ZeroDivisionError
      else if a = NaN \<or> b = NaN then Inr NaN
      else if is_inf a then
        (if is_inf b then Inr NaN else Inr (inf_of_sign (signbit a \<noteq> signbit b)))
      else if is_inf b then Inr (zero_of_sign (signbit a \<noteq> signbit b))
      else Inr (to_double (signbit a \<noteq> signbit b) (fval a / fval b)))"

text \<open>The implicit conversion of an \<^verbatim>\<open>int\<close> operand in mixed arithmetic
  (\<^verbatim>\<open>PyLong_AsDouble\<close>): correctly rounded, \<^verbatim>\<open>OverflowError\<close> when the integer is
  too large for a float.\<close>

definition float_of_int :: "int \<Rightarrow> pyerror + double" where
  "float_of_int n =
     (case to_double False (of_int n) of
        PInf \<Rightarrow> Inl OverflowError
      | NInf \<Rightarrow> Inl OverflowError
      | d \<Rightarrow> Inr d)"

text \<open>\<^verbatim>\<open>a / b\<close> on two \<^verbatim>\<open>int\<close>s (true division): the exact quotient, rounded
  once; a result too large for a float raises.\<close>

definition int_truediv :: "int \<Rightarrow> int \<Rightarrow> pyerror + double" where
  "int_truediv a b =
     (if b = 0 then Inl ZeroDivisionError
      else case to_double ((a < 0) \<noteq> (b < 0)) (of_int a / of_int b) of
             PInf \<Rightarrow> Inl OverflowError
           | NInf \<Rightarrow> Inl OverflowError
           | d \<Rightarrow> Inr d)"

text \<open>\<^verbatim>\<open>x < f\<close> for an \<^verbatim>\<open>int\<close> \<open>x\<close> and a float \<open>f\<close>: Python compares the two
  numbers exactly, without converting the integer.\<close>

definition int_lt_double :: "int \<Rightarrow> double \<Rightarrow> bool" where
  "int_lt_double x f =
     (case f of Fin q \<Rightarrow> of_int x < q | NegZero \<Rightarrow> x < 0 | PInf \<Rightarrow> True
      | NInf \<Rightarrow> False | NaN \<Rightarrow> False)"

text \<open>\<^verbatim>\<open>int(f)\<close>: truncation towards zero; an infinity raises
  \<^verbatim>\<open>OverflowError\<close>, a not-a-number \<^verbatim>\<open>ValueError\<close>.\<close>

definition trunc_rat :: "rat \<Rightarrow> int" where
  "trunc_rat q = (if 0 \<le> q then \<lfloor>q\<rfloor> else \<lceil>q\<rceil>)"

definition int_of_double :: "double \<Rightarrow> pyerror + int" where
  "int_of_double f =
     (case f of Fin q \<Rightarrow> Inr (trunc_rat q) | NegZero \<Rightarrow> Inr 0
      | PInf \<Rightarrow> Inl OverflowError | NInf \<Rightarrow> Inl OverflowError | NaN \<Rightarrow> Inl ValueError)"

text \<open>The literal \<^verbatim>\<open>1e-9\<close>: the float nearest to \<open>10\<^sup>-\<^sup>9\<close>.\<close>

definition eps :: double where
  "eps = to_double False (1 / 10 ^ 9)"

subsection \<open>Points, polygons, zones\<close>

type_synonym point = "int \<times> int"
type_synonym polygon = "point list"

record zone =
  name :: string
  points :: polygon

subsection \<open>\<^verbatim>\<open>inside_polygon\<close>\<close>

text \<open>
  \<^verbatim>\<open>xinters = (x2 - x1) * (y - y1) / (y2 - y1 + 1e-9) + x1\<close>. The product and the
  two differences are integer operations; the addition of \<^verbatim>\<open>1e-9\<close>, the division
  and the final addition are float operations that first convert their integer operand.
\<close>

definition xinters :: "int \<Rightarrow> int \<Rightarrow> int \<Rightarrow> int \<Rightarrow> int \<Rightarrow> pyerror + double" where
  "xinters x1 y1 x2 y2 y =
     (case float_of_int (y2 - y1) of Inl e \<Rightarrow> Inl e | Inr dy \<Rightarrow>
      case float_of_int ((x2 - x1) * (y - y1)) of Inl e \<Rightarrow> Inl e | Inr num \<Rightarrow>
      case fdiv num (fadd dy eps) of Inl e \<Rightarrow> Inl e | Inr quot \<Rightarrow>
      case float_of_int x1 of Inl e \<Rightarrow> Inl e | Inr fx1 \<Rightarrow>
      Inr (fadd quot fx1))"

text \<open>The body of \<^verbatim>\<open>for i in range(n)\<close>, run over the remaining indices; \<open>inside\<close>
  is the flag so far. An exception leaves the loop at once.\<close>

fun edge_loop :: "int \<Rightarrow> int \<Rightarrow> polygon \<Rightarrow> nat list \<Rightarrow> bool \<Rightarrow> pyerror + bool" where
  "edge_loop x y poly [] inside = Inr inside"
| "edge_loop x y poly (i # rest) inside =
     (case (poly ! i, poly ! ((i + 1) mod length poly)) of ((x1, y1), (x2, y2)) \<Rightarrow>
        if (y1 > y) \<noteq> (y2 > y) then
          (case xinters x1 y1 x2 y2 y of
             Inl e \<Rightarrow> Inl e
           | Inr xi \<Rightarrow>
               edge_loop x y poly rest (if int_lt_double x xi then \<not> inside else inside))
        else edge_loop x y poly rest inside)"

definition inside_polygon :: "point \<Rightarrow> polygon \<Rightarrow> pyerror + bool" where
  "inside_polygon pt poly =
     (case pt of (x, y) \<Rightarrow>
        if length poly < 3 then Inr False
        else edge_loop x y poly [0..<length poly] False)"

text \<open>
  The ray-casting rule in the words of the specification: the edges of the polygon, each
  point paired with its successor and the last with the first; an edge counts when
  exactly one of its end points lies above the query point; the flag is toggled when the
  query point is strictly left of the intersection.
\<close>

definition polygon_edges :: "polygon \<Rightarrow> (point \<times> point) list" where
  "polygon_edges poly = zip poly (rotate1 poly)"

fun toggle_edges :: "int \<Rightarrow> int \<Rightarrow> (point \<times> point) list \<Rightarrow> bool \<Rightarrow> pyerror + bool" where
  "toggle_edges x y [] inside = Inr inside"
| "toggle_edges x y (((x1, y1), (x2, y2)) # es) inside =
     (if (y1 > y) \<noteq> (y2 > y) then
        (case xinters x1 y1 x2 y2 y of
           Inl e \<Rightarrow> Inl e
         | Inr xi \<Rightarrow> toggle_edges x y es (if int_lt_double x xi then \<not> inside else inside))
      else toggle_edges x y es inside)"

definition ray_casting :: "point \<Rightarrow> polygon \<Rightarrow> pyerror + bool" where
  "ray_casting pt poly = toggle_edges (fst pt) (snd pt) (polygon_edges poly) False"

definition square10 :: polygon where
  "square10 = [(0, 0), (10, 0), (10, 10), (0, 10)]"

subsection \<open>\<^verbatim>\<open>centroid_of_bbox\<close> and the zone counts\<close>

text \<open>A detection is the tuple \<^verbatim>\<open>(x, y, w, h, conf)\<close> that both detectors build.\<close>

type_synonym detection = "int \<times> int \<times> int \<times> int \<times> double"

text \<open>\<^verbatim>\<open>int(a + b / 2)\<close>: a true division of two integers, a float addition after
  converting \<open>a\<close>, then truncation.\<close>

definition half_offset :: "int \<Rightarrow> int \<Rightarrow> pyerror + int" where
  "half_offset a b =
     (case int_truediv b 2 of Inl e \<Rightarrow> Inl e | Inr hb \<Rightarrow>
      case float_of_int a of Inl e \<Rightarrow> Inl e | Inr fa \<Rightarrow>
      int_of_double (fadd fa hb))"

definition centroid_of_bbox :: "int \<Rightarrow> int \<Rightarrow> int \<Rightarrow> int \<Rightarrow> pyerror + point" where
  "centroid_of_bbox x y w h =
     (case half_offset x w of Inl e \<Rightarrow> Inl e | Inr cx \<Rightarrow>
      case half_offset y h of Inl e \<Rightarrow> Inl e | Inr cy \<Rightarrow>
      Inr (cx, cy))"

text \<open>
  The tally of \<^verbatim>\<open>main\<close>:
  \<^verbatim>\<open>counts_per_zone = {z.name: 0 for z in zones}\<close>, then for every detection the
  centroid and, for every zone, \<^verbatim>\<open>counts_per_zone[z.name] += 1\<close> when the centroid is
  inside. The dictionary is a map from names to integers.
\<close>

type_synonym counts = "string \<rightharpoonup> int"

definition init_counts :: "zone list \<Rightarrow> counts" where
  "init_counts zones = foldl (\<lambda>m z. m(name z \<mapsto> 0)) Map.empty zones"

definition increment :: "counts \<Rightarrow> string \<Rightarrow> pyerror + counts" where
  "increment m k = (case m k of None \<Rightarrow> Inl KeyError | Some v \<Rightarrow> Inr (m(k \<mapsto> v + 1)))"

fun zone_loop :: "point \<Rightarrow> zone list \<Rightarrow> counts \<Rightarrow> pyerror + counts" where
  "zone_loop c [] m = Inr m"
| "zone_loop c (z # zs) m =
     (case inside_polygon c (points z) of
        Inl e \<Rightarrow> Inl e
      | Inr b \<Rightarrow>
          if b then (case increment m (name z) of Inl e \<Rightarrow> Inl e | Inr m' \<Rightarrow> zone_loop c zs m')
          else zone_loop c zs m)"

fun detection_loop :: "detection list \<Rightarrow> zone list \<Rightarrow> counts \<Rightarrow> pyerror + counts" where
  "detection_loop [] zones m = Inr m"
| "detection_loop ((x, y, w, h, conf) # ds) zones m =
     (case centroid_of_bbox x y w h of Inl e \<Rightarrow> Inl e | Inr c \<Rightarrow>
      case zone_loop c zones m of Inl e \<Rightarrow> Inl e | Inr m' \<Rightarrow>
      detection_loop ds zones m')"

definition zone_counts :: "detection list \<Rightarrow> zone list \<Rightarrow> pyerror + counts" where
  "zone_counts dets zones = detection_loop dets zones (init_counts zones)"

subsection \<open>\<^verbatim>\<open>compute_motion_percent\<close>\<close>

text \<open>
  A single-channel 8-bit image is its shape and its pixels by row and column, as a numpy
  array gives them. The background subtractor and \<^verbatim>\<open>numpy.mean\<close> are library code:
  the subtractor is a parameter that maps the frames seen so far and the new frame to the
  foreground mask, the mean a parameter on lists of floats.
\<close>

record image =
  rows :: nat
  cols :: nat
  pix :: "nat \<Rightarrow> nat \<Rightarrow> 8 word"

text \<open>One bound of a slice \<^verbatim>\<open>a[i:j]\<close> against the length \<open>n\<close>: a negative bound counts
  from the end, and the result is clamped to \<open>0..n\<close>.\<close>

definition slice_bound :: "int \<Rightarrow> nat \<Rightarrow> nat" where
  "slice_bound i n =
     (if i < 0 then (if i + int n < 0 then 0 else nat (i + int n))
      else if int n \<le> i then n else nat i)"

text \<open>\<^verbatim>\<open>m[y1:y2, x1:x2]\<close>.\<close>

definition slice2 :: "image \<Rightarrow> int \<Rightarrow> int \<Rightarrow> int \<Rightarrow> int \<Rightarrow> image" where
  "slice2 m y1 y2 x1 x2 =
     (let r0 = slice_bound y1 (rows m); r1 = slice_bound y2 (rows m);
          c0 = slice_bound x1 (cols m); c1 = slice_bound x2 (cols m)
      in \<lparr>rows = r1 - r0, cols = c1 - c0, pix = (\<lambda>r c. pix m (r0 + r) (c0 + c))\<rparr>)"

definition image_size :: "image \<Rightarrow> nat" where
  "image_size m = rows m * cols m"

text \<open>\<^verbatim>\<open>cv2.threshold(roi, t, 255, cv2.THRESH_BINARY)\<close>: 255 where the pixel exceeds
  the threshold, 0 elsewhere.\<close>

definition threshold_binary :: "image \<Rightarrow> int \<Rightarrow> image" where
  "threshold_binary m t = m\<lparr>pix := (\<lambda>r c. if t < int (unat (pix m r c)) then 255 else 0)\<rparr>"

definition count_nonzero :: "image \<Rightarrow> nat" where
  "count_nonzero m =
     length (filter (\<lambda>(r, c). pix m r c \<noteq> 0) (List.product [0..<rows m] [0..<cols m]))"

text \<open>\<^verbatim>\<open>f > 0\<close> on a float.\<close>

definition double_gt_zero :: "double \<Rightarrow> bool" where
  "double_gt_zero f = (case f of Fin q \<Rightarrow> 0 < q | PInf \<Rightarrow> True | _ \<Rightarrow> False)"

text \<open>The body of the loop over the detections for one of them: the motion value that
  is appended to \<^verbatim>\<open>motion_values\<close>.\<close>

definition motion_value :: "image \<Rightarrow> nat \<Rightarrow> nat \<Rightarrow> int \<Rightarrow> detection \<Rightarrow> pyerror + double" where
  "motion_value fgmask frame_rows frame_cols motion_thresh det =
     (case det of (x, y, w, h, conf) \<Rightarrow>
        let x1 = max 0 x; y1 = max 0 y;
            x2 = min (int frame_cols) (x + w); y2 = min (int frame_rows) (y + h);
            roi = slice2 fgmask y1 y2 x1 x2
        in if image_size roi = 0 then Inr (Fin 0)
           else
             let thr = threshold_binary roi motion_thresh in
             case float_of_int (int (count_nonzero thr)) of Inl e \<Rightarrow> Inl e | Inr moving \<Rightarrow>
             case float_of_int (int (image_size roi)) of Inl e \<Rightarrow> Inl e | Inr total_px \<Rightarrow>
             if double_gt_zero total_px then fdiv (fmul (Fin 100) moving) total_px
             else Inr (Fin 0))"

fun motion_loop :: "image \<Rightarrow> nat \<Rightarrow> nat \<Rightarrow> int \<Rightarrow> detection list \<Rightarrow> double list
    \<Rightarrow> pyerror + double list" where
  "motion_loop fgmask fr fc t [] motion_values = Inr motion_values"
| "motion_loop fgmask fr fc t (det # ds) motion_values =
     (case motion_value fgmask fr fc t det of
        Inl e \<Rightarrow> Inl e
      | Inr v \<Rightarrow> motion_loop fgmask fr fc t ds (motion_values @ [v]))"

text \<open>\<^verbatim>\<open>compute_motion_percent(bfg, frame_gray, detections, motion_thresh)\<close>;
  \<open>history\<close> are the frames the subtractor has been applied to before.\<close>

definition compute_motion_percent ::
  "(image list \<Rightarrow> image \<Rightarrow> image) \<Rightarrow> (double list \<Rightarrow> double) \<Rightarrow> image list \<Rightarrow> image
    \<Rightarrow> detection list \<Rightarrow> int \<Rightarrow> pyerror + (double \<times> double list \<times> image)" where
  "compute_motion_percent bfg_apply np_mean history frame_gray detections motion_thresh =
     (let fgmask = bfg_apply history frame_gray in
      case motion_loop fgmask (rows frame_gray) (cols frame_gray) motion_thresh detections [] of
        Inl e \<Rightarrow> Inl e
      | Inr motion_values \<Rightarrow>
          let avg_motion = (if motion_values \<noteq> [] then np_mean motion_values else Fin 0)
          in Inr (avg_motion, motion_values, fgmask))"

subsection \<open>Text: \<^verbatim>\<open>str\<close>, \<^verbatim>\<open>.2f\<close> and \<^verbatim>\<open>join\<close>\<close>

definition digit_char :: "nat \<Rightarrow> char" where
  "digit_char d = ''0123456789'' ! (d mod 10)"

fun str_nat :: "nat \<Rightarrow> string" where
  "str_nat n = (if n < 10 then [digit_char n] else str_nat (n div 10) @ [digit_char (n mod 10)])"

definition str_int :: "int \<Rightarrow> string" where
  "str_int i = (if i < 0 then CHR ''-'' # str_nat (nat (- i)) else str_nat (nat i))"

text \<open>\<^verbatim>\<open>f"{v:.2f}"\<close>: the exact value of the float rounded to hundredths, ties to
  even; the sign is kept even when the digits are all zero.\<close>

definition fmt_2f :: "double \<Rightarrow> string" where
  "fmt_2f d =
     (case d of
        NaN \<Rightarrow> ''nan'' | PInf \<Rightarrow> ''inf'' | NInf \<Rightarrow> ''-inf'' | NegZero \<Rightarrow> ''-0.00''
      | Fin q \<Rightarrow>
          (let n = nat (round_half_even (\<bar>q\<bar> * 100))
           in (if q < 0 then ''-'' else []) @ str_nat (n div 100) @ ''.''
              @ [digit_char (n mod 100 div 10), digit_char (n mod 10)]))"

fun join_comma :: "string list \<Rightarrow> string" where
  "join_comma [] = []"
| "join_comma [s] = s"
| "join_comma (s # t # ss) = s @ '','' @ join_comma (t # ss)"

definition newline :: string where
  "newline = [CHR 0x0A]"

subsection \<open>Persistence: \<^verbatim>\<open>save_zones\<close> and \<^verbatim>\<open>load_zones\<close>\<close>

text \<open>
  The values that \<^verbatim>\<open>json.load\<close> produces and \<^verbatim>\<open>json.dump\<close> accepts. A file is
  modelled by the document it holds: \<^verbatim>\<open>json.dump\<close> followed by \<^verbatim>\<open>json.load\<close> gives
  the document back (tuples having become lists), which is the contract of the library;
  a file that is not JSON makes \<^verbatim>\<open>json.load\<close> raise. The file system maps a path to
  the content of the file there; writing is taken to succeed.
\<close>

datatype json =
    JNull
  | JBool bool
  | JInt int
  | JFloat double
  | JStr string
  | JArr "json list"
  | JObj "(string \<times> json) list"

datatype file_content = Document json | Malformed

type_synonym filesystem = "string \<rightharpoonup> file_content"

definition point_json :: "point \<Rightarrow> json" where
  "point_json p = JArr [JInt (fst p), JInt (snd p)]"

definition zone_json :: "zone \<Rightarrow> json" where
  "zone_json z = JObj [(''name'', JStr (name z)), (''points'', JArr (map point_json (points z)))]"

definition save_zones :: "string \<Rightarrow> zone list \<Rightarrow> filesystem \<Rightarrow> filesystem" where
  "save_zones path zs fs = fs(path \<mapsto> Document (JArr (map zone_json zs)))"

text \<open>Iterating over a loaded value (\<^verbatim>\<open>for ... in v\<close>, \<^verbatim>\<open>tuple(v)\<close>): a list gives
  its items, a dictionary its keys, a string its characters; anything else raises.\<close>

definition py_iter :: "json \<Rightarrow> pyerror + json list" where
  "py_iter v =
     (case v of
        JArr xs \<Rightarrow> Inr xs
      | JObj kvs \<Rightarrow> Inr (map (\<lambda>kv. JStr (fst kv)) kvs)
      | JStr cs \<Rightarrow> Inr (map (\<lambda>c. JStr [c]) cs)
      | _ \<Rightarrow> Inl TypeError)"

text \<open>\<^verbatim>\<open>d.get(k, default)\<close>: only a dictionary has the method.\<close>

definition dict_get :: "json \<Rightarrow> string \<Rightarrow> json \<Rightarrow> pyerror + json" where
  "dict_get d k dflt =
     (case d of
        JObj kvs \<Rightarrow> (case map_of kvs k of None \<Rightarrow> Inr dflt | Some v \<Rightarrow> Inr v)
      | _ \<Rightarrow> Inl AttributeError)"

text \<open>\<^verbatim>\<open>d[k]\<close> for a string key.\<close>

definition dict_item :: "json \<Rightarrow> string \<Rightarrow> pyerror + json" where
  "dict_item d k =
     (case d of
        JObj kvs \<Rightarrow> (case map_of kvs k of None \<Rightarrow> Inl KeyError | Some v \<Rightarrow> Inr v)
      | _ \<Rightarrow> Inl TypeError)"

text \<open>\<^verbatim>\<open>[tuple(p) for p in ...]\<close>.\<close>

fun tuples :: "json list \<Rightarrow> pyerror + json list list" where
  "tuples [] = Inr []"
| "tuples (p # ps) =
     (case py_iter p of Inl e \<Rightarrow> Inl e | Inr t \<Rightarrow>
      case tuples ps of Inl e \<Rightarrow> Inl e | Inr ts \<Rightarrow> Inr (t # ts))"

text \<open>A \<^verbatim>\<open>Zone\<close> object as \<^verbatim>\<open>load_zones\<close> builds it: Python checks neither that the
  name is a string nor that the points are pairs of integers.\<close>

record raw_zone =
  raw_name :: json
  raw_points :: "json list list"

text \<open>The list comprehension over \<^verbatim>\<open>enumerate(data)\<close>, from index \<open>i\<close> on.\<close>

fun load_records :: "nat \<Rightarrow> json list \<Rightarrow> pyerror + raw_zone list" where
  "load_records i [] = Inr []"
| "load_records i (d # ds) =
     (case dict_get d ''name'' (JStr (''Zone '' @ str_int (int i + 1))) of
        Inl e \<Rightarrow> Inl e | Inr nm \<Rightarrow>
      case dict_item d ''points'' of Inl e \<Rightarrow> Inl e | Inr pts \<Rightarrow>
      case py_iter pts of Inl e \<Rightarrow> Inl e | Inr ps \<Rightarrow>
      case tuples ps of Inl e \<Rightarrow> Inl e | Inr ts \<Rightarrow>
      case load_records (i + 1) ds of Inl e \<Rightarrow> Inl e | Inr zs \<Rightarrow>
      Inr (\<lparr>raw_name = nm, raw_points = ts\<rparr> # zs))"

definition load_zones :: "string \<Rightarrow> filesystem \<Rightarrow> pyerror + raw_zone list" where
  "load_zones path fs =
     (case fs path of
        None \<Rightarrow> Inr []
      | Some Malformed \<Rightarrow> Inl JSONDecodeError
      | Some (Document data) \<Rightarrow>
          (case py_iter data of Inl e \<Rightarrow> Inl e | Inr ds \<Rightarrow> load_records 0 ds))"

text \<open>The loaded objects that have the declared types \<^verbatim>\<open>Zone(name: str, points:
  List[Tuple[int, int]])\<close>, read as zones.\<close>

definition point_of_tuple :: "json list \<Rightarrow> point option" where
  "point_of_tuple t = (case t of [JInt x, JInt y] \<Rightarrow> Some (x, y) | _ \<Rightarrow> None)"

fun points_of_tuples :: "json list list \<Rightarrow> polygon option" where
  "points_of_tuples [] = Some []"
| "points_of_tuples (t # ts) =
     (case point_of_tuple t of None \<Rightarrow> None | Some p \<Rightarrow>
      case points_of_tuples ts of None \<Rightarrow> None | Some ps \<Rightarrow> Some (p # ps))"

definition zone_of_raw :: "raw_zone \<Rightarrow> zone option" where
  "zone_of_raw r =
     (case raw_name r of
        JStr s \<Rightarrow> (case points_of_tuples (raw_points r) of
                     None \<Rightarrow> None | Some ps \<Rightarrow> Some \<lparr>name = s, points = ps\<rparr>)
      | _ \<Rightarrow> None)"

fun zones_of_raw :: "raw_zone list \<Rightarrow> zone list option" where
  "zones_of_raw [] = Some []"
| "zones_of_raw (r # rs) =
     (case zone_of_raw r of None \<Rightarrow> None | Some z \<Rightarrow>
      case zones_of_raw rs of None \<Rightarrow> None | Some zs \<Rightarrow> Some (z # zs))"

subsection \<open>The state of \<^verbatim>\<open>main\<close>\<close>

text \<open>
  \<^verbatim>\<open>main\<close> mutates lists in place: the mouse callback appends to the list
  \<^verbatim>\<open>state["active"]\<close>, the key \<^verbatim>\<open>n\<close> clears it after handing a copy to a new
  \<^verbatim>\<open>Zone\<close>. List objects therefore live in a heap, addressed by numbers; a zone object
  holds its name and the address of its list of points. The row log is the sequence of
  strings written to \<^verbatim>\<open>csv_f\<close>; it is kept apart from the files that hold zones.
  Rendering and the network sink are not modelled.
\<close>

record zone_ref =
  ref_name :: string
  ref_points :: nat

record args =
  arg_zones :: string
  arg_csv :: "string option"
  arg_bs_thresh :: int

record state =
  heap :: "nat \<Rightarrow> polygon"
  next_addr :: nat
  zones :: "zone_ref list"
  active :: nat
  zone_counter :: int
  help_on :: bool
  paused :: bool
  csv_f :: "string list option"
  frame_idx :: int
  files :: filesystem
  history :: "image list"

datatype outcome =
    Continue state
  | Break state
  | Raise pyerror
  | Untyped

text \<open>A new list object holding \<open>p\<close> (a list literal, \<^verbatim>\<open>.copy()\<close>, a comprehension).\<close>

definition new_list :: "polygon \<Rightarrow> state \<Rightarrow> nat \<times> state" where
  "new_list p st =
     (next_addr st, st\<lparr>heap := (heap st)(next_addr st := p), next_addr := Suc (next_addr st)\<rparr>)"

definition zone_at :: "state \<Rightarrow> zone_ref \<Rightarrow> zone" where
  "zone_at st r = \<lparr>name = ref_name r, points = heap st (ref_points r)\<rparr>"

text \<open>The zone collection and the polygon under construction, read through the heap.\<close>

definition current_zones :: "state \<Rightarrow> zone list" where
  "current_zones st = map (zone_at st) (zones st)"

definition active_polygon :: "state \<Rightarrow> polygon" where
  "active_polygon st = heap st (active st)"

fun store_zones :: "zone list \<Rightarrow> state \<Rightarrow> zone_ref list \<times> state" where
  "store_zones [] st = ([], st)"
| "store_zones (z # zs) st =
     (case new_list (points z) st of (a, st1) \<Rightarrow>
      case store_zones zs st1 of (rs, st2) \<Rightarrow>
      (\<lparr>ref_name = name z, ref_points = a\<rparr> # rs, st2))"

text \<open>
  \<^verbatim>\<open>zones = load_zones(args.zones)\<close>, at the start and on the key \<^verbatim>\<open>l\<close>. No
  handler surrounds the call, so an exception ends the program. Loaded objects that do
  not have the declared types leave the typed model: the outcome \<open>Untyped\<close>.
\<close>

definition load_into :: "args \<Rightarrow> state \<Rightarrow> outcome" where
  "load_into a st =
     (case load_zones (arg_zones a) (files st) of
        Inl e \<Rightarrow> Raise e
      | Inr raws \<Rightarrow>
          (case zones_of_raw raws of
             None \<Rightarrow> Untyped
           | Some zs \<Rightarrow> (case store_zones zs st of (rs, st1) \<Rightarrow> Continue (st1\<lparr>zones := rs\<rparr>))))"

definition csv_header :: "zone list \<Rightarrow> string" where
  "csv_header zs =
     join_comma ([''frame'', ''count_total'', ''avg_motion''] @ map name zs) @ newline"

text \<open>\<^verbatim>\<open>counts_per_zone.get(z.name, 0)\<close>.\<close>

definition count_of :: "counts \<Rightarrow> string \<Rightarrow> int" where
  "count_of m k = (case m k of None \<Rightarrow> 0 | Some v \<Rightarrow> v)"

definition csv_row :: "int \<Rightarrow> detection list \<Rightarrow> double \<Rightarrow> counts \<Rightarrow> zone list \<Rightarrow> string" where
  "csv_row idx dets avg m zs =
     join_comma ([str_int idx, str_int (int (length dets)), fmt_2f avg]
                 @ map (\<lambda>z. str_int (count_of m (name z))) zs) @ newline"

definition empty_state :: "filesystem \<Rightarrow> state" where
  "empty_state fs =
     \<lparr>heap = (\<lambda>a. []), next_addr = 0, zones = [], active = 0, zone_counter = 0,
      help_on = True, paused = False, csv_f = None, frame_idx = 0, files = fs,
      history = []\<rparr>"

text \<open>\<^verbatim>\<open>if args.csv:\<close> holds for a path that is given and not empty.\<close>

definition csv_enabled :: "args \<Rightarrow> bool" where
  "csv_enabled a = (case arg_csv a of None \<Rightarrow> False | Some p \<Rightarrow> p \<noteq> [])"

text \<open>\<^verbatim>\<open>main\<close> up to the loop: the zones are loaded, the active polygon is a new empty
  list, the log is opened and its header written.\<close>

definition main_init :: "args \<Rightarrow> filesystem \<Rightarrow> outcome" where
  "main_init a fs =
     (case load_into a (empty_state fs) of
        Continue st1 \<Rightarrow>
          (case new_list [] st1 of (act, st2) \<Rightarrow>
             Continue (st2\<lparr>active := act,
                           zone_counter := int (length (zones st2)),
                           help_on := True, paused := False,
                           csv_f := (if csv_enabled a then Some [csv_header (current_zones st2)]
                                     else None),
                           frame_idx := 0\<rparr>))
      | other \<Rightarrow> other)"

text \<open>The block under \<^verbatim>\<open>if not paused:\<close> for a frame that was read: motion, tally,
  one row of the log, the frame counter. The detections are what the detector returned
  for the frame.\<close>

definition process_frame ::
  "(image list \<Rightarrow> image \<Rightarrow> image) \<Rightarrow> (double list \<Rightarrow> double) \<Rightarrow> args \<Rightarrow> image
    \<Rightarrow> detection list \<Rightarrow> state \<Rightarrow> outcome" where
  "process_frame bfg_apply np_mean a frame_gray dets st =
     (case compute_motion_percent bfg_apply np_mean (history st) frame_gray dets
             (arg_bs_thresh a) of
        Inl e \<Rightarrow> Raise e
      | Inr (avg_motion, motion_values, fgmask) \<Rightarrow>
          (case zone_counts dets (current_zones st) of
             Inl e \<Rightarrow> Raise e
           | Inr m \<Rightarrow>
               Continue (st\<lparr>history := history st @ [frame_gray],
                            csv_f := (case csv_f st of
                                        None \<Rightarrow> None
                                      | Some ls \<Rightarrow>
                                          Some (ls @ [csv_row (frame_idx st) dets avg_motion m
                                                        (current_zones st)])),
                            frame_idx := frame_idx st + 1\<rparr>)))"

text \<open>\<^verbatim>\<open>on_mouse\<close> for a left button press at \<open>p\<close>.\<close>

definition on_mouse :: "point \<Rightarrow> state \<Rightarrow> state" where
  "on_mouse p st = st\<lparr>heap := (heap st)(active st := heap st (active st) @ [p])\<rparr>"

text \<open>The branch of the key \<^verbatim>\<open>n\<close>.\<close>

definition finalize :: "state \<Rightarrow> state" where
  "finalize st =
     (let st1 =
        (if 3 \<le> length (heap st (active st)) then
           (case new_list (heap st (active st)) st of (a, st') \<Rightarrow>
              st'\<lparr>zone_counter := zone_counter st + 1,
                  zones := zones st
                    @ [\<lparr>ref_name = ''Zone '' @ str_int (zone_counter st + 1), ref_points = a\<rparr>]\<rparr>)
         else st)
      in st1\<lparr>heap := (heap st1)(active st1 := [])\<rparr>)"

text \<open>The branch of the key \<^verbatim>\<open>z\<close>.\<close>

definition undo_point :: "state \<Rightarrow> state" where
  "undo_point st =
     (if 0 < length (heap st (active st))
      then st\<lparr>heap := (heap st)(active st := butlast (heap st (active st)))\<rparr>
      else st)"

text \<open>The key handling at the end of an iteration; \<open>k\<close> is \<^verbatim>\<open>cv2.waitKey(1) & 0xFF\<close>.\<close>

definition handle_key :: "args \<Rightarrow> char \<Rightarrow> state \<Rightarrow> outcome" where
  "handle_key a k st =
     (if k = CHR ''q'' \<or> k = CHR 0x1B then Break st
      else if k = CHR ''h'' then Continue (st\<lparr>help_on := \<not> help_on st\<rparr>)
      else if k = CHR ''p'' then Continue (st\<lparr>paused := \<not> paused st\<rparr>)
      else if k = CHR ''z'' then Continue (undo_point st)
      else if k = CHR ''n'' then Continue (finalize st)
      else if k = CHR ''s'' then
        Continue (st\<lparr>files := save_zones (arg_zones a) (current_zones st) (files st)\<rparr>)
      else if k = CHR ''l'' then load_into a st
      else Continue st)"

text \<open>What one iteration of the loop receives: the result of \<^verbatim>\<open>cap.read()\<close> with the
  detections for that frame (asked for only when not paused), the button presses
  delivered while waiting for a key, and the key.\<close>

record iter_input =
  frame :: "(image \<times> detection list) option"
  clicks :: "point list"
  key :: char

definition iteration ::
  "(image list \<Rightarrow> image \<Rightarrow> image) \<Rightarrow> (double list \<Rightarrow> double) \<Rightarrow> args \<Rightarrow> iter_input
    \<Rightarrow> state \<Rightarrow> outcome" where
  "iteration bfg_apply np_mean a inp st =
     (case (if paused st then Continue st
            else case frame inp of
                   None \<Rightarrow> Break st
                 | Some (img, dets) \<Rightarrow> process_frame bfg_apply np_mean a img dets st) of
        Continue st1 \<Rightarrow> handle_key a (key inp) (foldl (\<lambda>s p. on_mouse p s) st1 (clicks inp))
      | other \<Rightarrow> other)"

text \<open>The loop over a finite sequence of inputs: the state after them, or how the loop
  was left before.\<close>

fun run ::
  "(image list \<Rightarrow> image \<Rightarrow> image) \<Rightarrow> (double list \<Rightarrow> double) \<Rightarrow> args \<Rightarrow> iter_input list
    \<Rightarrow> state \<Rightarrow> outcome" where
  "run bfg_apply np_mean a [] st = Continue st"
| "run bfg_apply np_mean a (inp # inps) st =
     (case iteration bfg_apply np_mean a inp st of
        Continue st' \<Rightarrow> run bfg_apply np_mean a inps st'
      | other \<Rightarrow> other)"

subsection \<open>Values used in the statements\<close>

text \<open>A zone as \<^verbatim>\<open>load_zones\<close> returns it after \<^verbatim>\<open>save_zones\<close> wrote it.\<close>

definition raw_of_zone :: "zone \<Rightarrow> raw_zone" where
  "raw_of_zone z = \<lparr>raw_name = JStr (name z), raw_points = map (\<lambda>p. [JInt (fst p), JInt (snd p)]) (points z)\<rparr>"

definition square20 :: polygon where
  "square20 = [(0, 0), (20, 0), (20, 20), (0, 20)]"

text \<open>The count that the consumers of the tally read for a name:
  \<^verbatim>\<open>counts_per_zone.get(name, 0)\<close>.\<close>

definition tally :: "detection list \<Rightarrow> zone list \<Rightarrow> string \<Rightarrow> pyerror + int" where
  "tally dets zs k = (case zone_counts dets zs of Inl e \<Rightarrow> Inl e | Inr m \<Rightarrow> Inr (count_of m k))"


text \<open>The literal \<^verbatim>\<open>0.9\<close>.\<close>

definition conf09 :: double where
  "conf09 = to_double False (9 / 10)"

text \<open>The heap is consistent: the active list and the lists of the zones are allocated,
  and no zone shares its list with the active polygon.\<close>

definition heap_ok :: "state \<Rightarrow> bool" where
  "heap_ok st =
     (active st < next_addr st
      \<and> (\<forall>r \<in> set (zones st). ref_points r < next_addr st \<and> ref_points r \<noteq> active st))"

text \<open>The name \<^verbatim>\<open>f"Zone {n}"\<close>.\<close>

definition default_name :: "int \<Rightarrow> string" where
  "default_name n = ''Zone '' @ str_int n"

text \<open>A command line without a row log, and the state in which \<^verbatim>\<open>main\<close> enters its
  loop when no zones file exists.\<close>

definition args0 :: args where
  "args0 = \<lparr>arg_zones = ''zones.json'', arg_csv = None, arg_bs_thresh = 25\<rparr>"

definition idle_state :: state where
  "idle_state = (empty_state Map.empty)\<lparr>next_addr := 1\<rparr>"

text \<open>The row log is its header followed by one row for each processed frame.\<close>

definition log_inv :: "string \<Rightarrow> state \<Rightarrow> bool" where
  "log_inv hdr st = (\<exists>rws. csv_f st = Some (hdr # rws) \<and> int (length rws) = frame_idx st)"

text \<open>A run with a row log: one zone on file, a frame source without motion, two
  iterations of the loop.\<close>

definition args_csv :: args where
  "args_csv = \<lparr>arg_zones = ''zones.json'', arg_csv = Some ''log.csv'', arg_bs_thresh = 25\<rparr>"

definition zone_a :: zone where
  "zone_a = \<lparr>name = ''A'', points = square20\<rparr>"

definition fs_one_zone :: filesystem where
  "fs_one_zone = save_zones ''zones.json'' [zone_a] Map.empty"

text \<open>A zones file whose only record has no point list.\<close>

definition fs_no_points :: filesystem where
  "fs_no_points = [''zones.json'' \<mapsto> Document (JArr [JObj [(''name'', JStr ''A'')]])]"

definition blank :: image where
  "blank = \<lparr>rows = 2, cols = 2, pix = (\<lambda>r c. 0)\<rparr>"

definition still :: "image list \<Rightarrow> image \<Rightarrow> image" where
  "still seen f = f\<lparr>pix := (\<lambda>r c. 0)\<rparr>"

definition zero_mean :: "double list \<Rightarrow> double" where
  "zero_mean vs = Fin 0"

definition no_key :: char where
  "no_key = CHR 0xFF"

definition draw_and_close :: iter_input where
  "draw_and_close = \<lparr>frame = Some (blank, []), clicks = [(1, 1), (5, 1), (3, 4)], key = CHR ''n''\<rparr>"

definition just_frame :: iter_input where
  "just_frame = \<lparr>frame = Some (blank, []), clicks = [], key = no_key\<rparr>"

text \<open>\<^verbatim>\<open>main\<close> on a finite sequence of inputs, and the row log it leaves.\<close>

definition main_run ::
  "(image list \<Rightarrow> image \<Rightarrow> image) \<Rightarrow> (double list \<Rightarrow> double) \<Rightarrow> args \<Rightarrow> filesystem
    \<Rightarrow> iter_input list \<Rightarrow> outcome" where
  "main_run bfg_apply np_mean a fs inps =
     (case main_init a fs of
        Continue st \<Rightarrow> run bfg_apply np_mean a inps st
      | other \<Rightarrow> other)"

definition log_of :: "outcome \<Rightarrow> string list option" where
  "log_of out = (case out of Continue st \<Rightarrow> csv_f st | Break st \<Rightarrow> csv_f st | _ \<Rightarrow> None)"

definition state_of :: "outcome \<Rightarrow> state" where
  "state_of out = (case out of Continue st \<Rightarrow> st | Break st \<Rightarrow> st | _ \<Rightarrow> empty_state Map.empty)"

text \<open>A foreground mask that is moving everywhere.\<close>

definition mask4 :: image where
  "mask4 = \<lparr>rows = 4, cols = 4, pix = (\<lambda>r c. 255)\<rparr>"

definition always_mask4 :: "image list \<Rightarrow> image \<Rightarrow> image" where
  "always_mask4 seen f = mask4"

section \<open>Properties\<close>

text \<open>
  Claim C2. A polygon with fewer than three points contains no point: for every query
  point, \<^verbatim>\<open>inside_polygon\<close> returns \<^verbatim>\<open>False\<close>.
\<close>

theorem inside_polygon_degenerate:
  "length poly < 3 \<Longrightarrow> inside_polygon pt poly = Inr False"
  by (simp add: inside_polygon_def split: prod.splits)

theorem inside_polygon_degenerate_witness:
  "length ([(0, 0), (4, 4)] :: polygon) < 3
   \<and> inside_polygon (1, 1) [(0, 0), (4, 4)] = Inr False"
  using inside_polygon_degenerate [of "[(0, 0), (4, 4)]" "(1, 1)"] by simp

subsection \<open>Exact float operations on small integers\<close>

lemma pow2_power_int: "pow2 e = power_int 2 e"
  by (simp add: pow2_def power_int_def inverse_eq_divide power_one_over)

lemma pow2_pos: "0 < pow2 e"
  by (simp add: pow2_power_int)

lemma pow2_add: "pow2 (a + b) = pow2 a * pow2 b"
  by (simp add: pow2_power_int power_int_add)

lemma pow2_diff: "pow2 (a - b) = pow2 a / pow2 b"
  by (simp add: pow2_power_int power_int_diff)

lemma pow2_nat: "pow2 (int n) = 2 ^ n"
  by (simp add: pow2_def)

lemma pow2_mono: "a \<le> b \<Longrightarrow> pow2 a \<le> pow2 b"
  by (simp add: pow2_power_int power_int_increasing)

lemma pow2_less_iff: "pow2 a < pow2 b \<longleftrightarrow> a < b"
proof
  assume "pow2 a < pow2 b"
  then show "a < b" using pow2_mono [of b a] by (cases "a < b") auto
next
  assume "a < b"
  then show "pow2 a < pow2 b" by (simp add: pow2_power_int power_int_strict_increasing)
qed

lemma ilog2_lower:
  assumes "0 < q"
  shows "pow2 (ilog2 q) \<le> q"
proof -
  obtain a b where ab: "quotient_of q = (a, b)" by (cases "quotient_of q")
  have b: "0 < b" using ab quotient_of_denom_pos by blast
  have q: "q = of_int a / of_int b" using ab quotient_of_div by blast
  have a: "0 < a" using assms b q by (simp add: zero_less_divide_iff)
  have la: "(2::rat) ^ nat (bitlen a - 1) \<le> of_int a"
  proof -
    have "(2::int) ^ nat (bitlen a - 1) \<le> a" using bitlen_bounds [OF a] by simp
    then have "(of_int ((2::int) ^ nat (bitlen a - 1)) :: rat) \<le> of_int a"
      by (simp only: of_int_le_iff)
    then show ?thesis by simp
  qed
  have lb: "of_int b \<le> (2::rat) ^ nat (bitlen b)"
  proof -
    have "b < (2::int) ^ nat (bitlen b)" using bitlen_bounds [OF b] by simp
    then have "(of_int b :: rat) < of_int ((2::int) ^ nat (bitlen b))"
      by (simp only: of_int_less_iff)
    then show ?thesis by simp
  qed
  have ba: "0 < bitlen a"
  proof (rule ccontr)
    assume "\<not> 0 < bitlen a"
    then have "nat (bitlen a) = 0" by simp
    then show False using bitlen_bounds [OF a] a by simp
  qed
  have bb: "0 < bitlen b"
  proof (rule ccontr)
    assume "\<not> 0 < bitlen b"
    then have "nat (bitlen b) = 0" by simp
    then show False using bitlen_bounds [OF b] b by simp
  qed
  have p1: "pow2 (bitlen a - 1) = 2 ^ nat (bitlen a - 1)" using ba by (simp add: pow2_def)
  have p2: "pow2 (bitlen b) = 2 ^ nat (bitlen b)" using bb by (simp add: pow2_def)
  have "pow2 (bitlen a - bitlen b - 1) = pow2 (bitlen a - 1) / pow2 (bitlen b)"
    using pow2_diff [of "bitlen a - 1" "bitlen b"] by (simp add: algebra_simps)
  also have "\<dots> \<le> of_int a / of_int b"
    unfolding p1 p2 using la lb a b by (intro frac_le) simp_all
  finally have low: "pow2 (bitlen a - bitlen b - 1) \<le> q" using q by simp
  show ?thesis
    using low by (simp add: ilog2_def ab Let_def)
qed

lemma round_half_even_of_int: "round_half_even (of_int z) = z"
  by (simp add: round_half_even_def Let_def)

lemma round_binary64_exact:
  assumes q: "q = of_int m * pow2 t" and m: "\<bar>m\<bar> < 2 ^ 53" and t: "- 1074 \<le> t"
  shows "round_binary64 q = q"
proof (cases "q = 0")
  case True
  then show ?thesis by (simp add: round_binary64_def)
next
  case False
  define p where "p = max (ilog2 \<bar>q\<bar>) (- 1022) - 52"
  have qpos: "0 < \<bar>q\<bar>" using False by simp
  have "p \<le> t"
  proof (rule ccontr)
    assume "\<not> p \<le> t"
    then have tp: "t < p" by simp
    then have "p \<noteq> - 1074" using t by simp
    then have pe: "p = ilog2 \<bar>q\<bar> - 52" unfolding p_def by (simp add: max_def split: if_splits)
    have "pow2 (ilog2 \<bar>q\<bar>) \<le> \<bar>q\<bar>" by (rule ilog2_lower [OF qpos])
    also have "\<bar>q\<bar> = of_int \<bar>m\<bar> * pow2 t"
      unfolding q using pow2_pos [of t] by (simp add: abs_mult)
    also have "\<dots> < 2 ^ 53 * pow2 t"
    proof -
      have "(of_int \<bar>m\<bar> :: rat) < of_int (2 ^ 53)" using m by (simp only: of_int_less_iff)
      then have "(of_int \<bar>m\<bar> :: rat) < 2 ^ 53" by simp
      then show ?thesis using pow2_pos [of t] by (simp only: mult_strict_right_mono)
    qed
    also have "\<dots> = pow2 (53 + t)" using pow2_add [of 53 t] by (simp add: pow2_def)
    finally have "ilog2 \<bar>q\<bar> < 53 + t" by (simp only: pow2_less_iff)
    with pe tp show False by simp
  qed
  then obtain k where k: "t = p + int k" by (metis nat_0_le diff_ge_0_iff_ge add_diff_cancel_left' zle_iff_zadd)
  have "q / pow2 p = of_int m * pow2 (int k)"
    unfolding q k pow2_add using pow2_pos [of p] by simp
  also have "\<dots> = of_int (m * 2 ^ k)" by (simp add: pow2_nat)
  finally have qp: "q / pow2 p = of_int (m * 2 ^ k)" .
  have "round_binary64 q = of_int (round_half_even (q / pow2 p)) * pow2 p"
    using False by (simp add: round_binary64_def p_def Let_def)
  also have "\<dots> = q / pow2 p * pow2 p"
    unfolding qp round_half_even_of_int ..
  also have "\<dots> = q" using pow2_pos [of p] by simp
  finally show ?thesis .
qed

lemma to_double_exact:
  assumes q: "q = of_int m * pow2 t" and m: "\<bar>m\<bar> < 2 ^ 53" and t: "- 1074 \<le> t"
    and nz: "q \<noteq> 0" and small: "\<bar>q\<bar> < pow2 1024"
  shows "to_double s q = Fin q"
proof -
  have r: "round_binary64 q = q" by (rule round_binary64_exact [OF q m t])
  have "pow2 (ilog2 \<bar>q\<bar>) \<le> \<bar>q\<bar>" using nz by (intro ilog2_lower) simp
  then have "pow2 (ilog2 \<bar>q\<bar>) < pow2 1024" using small by simp
  then have "ilog2 \<bar>q\<bar> < 1024" by (simp only: pow2_less_iff)
  then show ?thesis using nz by (simp add: to_double_def r Let_def)
qed

lemma to_double_zero: "to_double s 0 = (if s then NegZero else Fin 0)"
  by (simp add: to_double_def round_binary64_def)

lemma of_int_abs_less_pow2:
  assumes "\<bar>n\<bar> < (2::int) ^ 53"
  shows "\<bar>of_int n :: rat\<bar> < pow2 1024"
proof -
  have "(of_int \<bar>n\<bar> :: rat) < of_int (2 ^ 53)" using assms by (simp only: of_int_less_iff)
  then have "\<bar>of_int n :: rat\<bar> < pow2 53" by (simp add: pow2_def)
  also have "pow2 53 < pow2 1024" using pow2_less_iff [of 53 1024] by simp
  finally show ?thesis .
qed

lemma float_of_int_exact:
  assumes "\<bar>n\<bar> < 2 ^ 53"
  shows "float_of_int n = Inr (Fin (of_int n))"
proof (cases "n = 0")
  case True
  then show ?thesis by (simp add: float_of_int_def to_double_zero)
next
  case False
  have "to_double False (of_int n) = Fin (of_int n)"
    by (rule to_double_exact [where m = n and t = 0])
       (use assms False of_int_abs_less_pow2 [OF assms] in \<open>simp_all add: pow2_def\<close>)
  then show ?thesis by (simp add: float_of_int_def)
qed

lemma half_exact:
  assumes "\<bar>k\<bar> < 2 ^ 53"
  shows "to_double False (of_int k / 2) = Fin (of_int k / 2)"
proof (cases "k = 0")
  case True
  then show ?thesis by (simp add: to_double_zero)
next
  case False
  have lt: "\<bar>of_int k / 2 :: rat\<bar> < pow2 1024"
  proof -
    have "\<bar>of_int k / 2 :: rat\<bar> \<le> \<bar>of_int k\<bar>" by simp
    then show ?thesis using of_int_abs_less_pow2 [OF assms] by simp
  qed
  show ?thesis
    by (rule to_double_exact [where m = k and t = "- 1"])
       (use assms False lt in \<open>simp_all add: pow2_def\<close>)
qed

lemma int_truediv_two:
  assumes "\<bar>w\<bar> < 2 ^ 53"
  shows "int_truediv w 2 = Inr (Fin (of_int w / 2))"
proof (cases "w = 0")
  case True
  then show ?thesis by (simp add: int_truediv_def to_double_zero)
next
  case False
  have "to_double (w < 0) (of_int w / 2) = Fin (of_int w / 2)"
  proof -
    have lt: "\<bar>of_int w / 2 :: rat\<bar> < pow2 1024"
    proof -
      have "\<bar>of_int w / 2 :: rat\<bar> \<le> \<bar>of_int w\<bar>" by simp
      then show ?thesis using of_int_abs_less_pow2 [OF assms] by simp
    qed
    show ?thesis
      by (rule to_double_exact [where m = w and t = "- 1"])
         (use assms False lt in \<open>simp_all add: pow2_def\<close>)
  qed
  then show ?thesis by (simp add: int_truediv_def)
qed

lemma half_offset_exact:
  assumes a: "\<bar>a\<bar> < 2 ^ 51" and b: "\<bar>b\<bar> < 2 ^ 51"
  shows "half_offset a b = Inr (trunc_rat (of_int a + of_int b / 2))"
proof -
  have a': "\<bar>a\<bar> < 2 ^ 53" and b': "\<bar>b\<bar> < 2 ^ 53" using a b by simp_all
  have k: "\<bar>2 * a + b\<bar> < 2 ^ 53" using a b by simp
  have sum: "(of_int a + of_int b / 2 :: rat) = of_int (2 * a + b) / 2" by simp
  have "fadd (Fin (of_int a)) (Fin (of_int b / 2)) = to_double False (of_int a + of_int b / 2)"
    by (simp add: fadd_def is_inf_def fval_def)
  also have "\<dots> = Fin (of_int a + of_int b / 2)"
    unfolding sum by (rule half_exact [OF k])
  finally show ?thesis
    by (simp add: half_offset_def int_truediv_two [OF b'] float_of_int_exact [OF a'] int_of_double_def)
qed

lemma centroid_exact:
  assumes "\<bar>x\<bar> < 2 ^ 51" "\<bar>y\<bar> < 2 ^ 51" "\<bar>w\<bar> < 2 ^ 51" "\<bar>h\<bar> < 2 ^ 51"
  shows "centroid_of_bbox x y w h =
         Inr (trunc_rat (of_int x + of_int w / 2), trunc_rat (of_int y + of_int h / 2))"
  using assms by (simp add: centroid_of_bbox_def half_offset_exact)

subsection \<open>Persistence\<close>

lemma tuples_point_json: "tuples (map point_json ps) = Inr (map (\<lambda>p. [JInt (fst p), JInt (snd p)]) ps)"
  by (induction ps) (simp_all add: point_json_def py_iter_def)

lemma points_of_tuples_roundtrip:
  "points_of_tuples (map (\<lambda>p. [JInt (fst p), JInt (snd p)]) ps) = Some ps"
  by (induction ps) (simp_all add: point_of_tuple_def)

lemma load_records_zone_json: "load_records i (map zone_json zs) = Inr (map raw_of_zone zs)"
  by (induction zs arbitrary: i)
     (simp_all add: zone_json_def dict_get_def dict_item_def py_iter_def tuples_point_json raw_of_zone_def)

lemma zones_of_raw_roundtrip: "zones_of_raw (map raw_of_zone (zs :: zone list)) = Some zs"
  by (induction zs) (simp_all add: zone_of_raw_def raw_of_zone_def points_of_tuples_roundtrip)

subsection \<open>The tally\<close>

lemma zone_loop_append:
  "zone_loop c (xs @ ys) m = (case zone_loop c xs m of Inl e \<Rightarrow> Inl e | Inr m1 \<Rightarrow> zone_loop c ys m1)"
  by (induction xs arbitrary: m) (auto split: sum.splits)

lemma zone_loop_other:
  "zone_loop c zs m = Inr m' \<Longrightarrow> k \<notin> name ` set zs \<Longrightarrow> m' k = m k"
proof (induction zs arbitrary: m)
  case Nil
  then show ?case by simp
next
  case (Cons z zs)
  then show ?case
    by (auto simp: increment_def split: sum.splits if_splits option.splits)
qed

lemma zone_loop_sim:
  assumes "zone_loop c zs m' = Inr r'" and "\<forall>k. k \<noteq> nz \<longrightarrow> m k = m' k" and "nz \<notin> name ` set zs"
  shows "\<exists>r. zone_loop c zs m = Inr r \<and> (\<forall>k. k \<noteq> nz \<longrightarrow> r k = r' k)"
  using assms
proof (induction zs arbitrary: m m')
  case Nil
  then show ?case by simp
next
  case (Cons z zs)
  from Cons.prems(3) have nz: "name z \<noteq> nz" and rest: "nz \<notin> name ` set zs" by auto
  obtain b where b: "inside_polygon c (points z) = Inr b"
    using Cons.prems(1) by (auto split: sum.splits)
  show ?case
  proof (cases b)
    case False
    then show ?thesis using Cons b rest by simp
  next
    case True
    then obtain m1' where inc': "increment m' (name z) = Inr m1'" and loop': "zone_loop c zs m1' = Inr r'"
      using Cons.prems(1) b by (auto split: sum.splits)
    from inc' obtain v where v: "m' (name z) = Some v" and m1': "m1' = m'(name z \<mapsto> v + 1)"
      by (auto simp: increment_def split: option.splits)
    have mv: "m (name z) = Some v" using Cons.prems(2) nz v by simp
    have inc: "increment m (name z) = Inr (m(name z \<mapsto> v + 1))" using mv by (simp add: increment_def)
    have agree: "\<forall>k. k \<noteq> nz \<longrightarrow> (m(name z \<mapsto> v + 1)) k = m1' k"
      using Cons.prems(2) m1' by simp
    from Cons.IH [where m = "m(name z \<mapsto> v + 1)" and m' = m1', OF loop' agree rest]
    obtain r where "zone_loop c zs (m(name z \<mapsto> v + 1)) = Inr r" and "\<forall>k. k \<noteq> nz \<longrightarrow> r k = r' k"
      by blast
    then show ?thesis using b True inc by simp
  qed
qed

lemma detection_loop_sim:
  assumes "detection_loop ds (zs @ [z]) m' = Inr r'" and "\<forall>k. k \<noteq> name z \<longrightarrow> m k = m' k"
    and "name z \<notin> name ` set zs"
  shows "\<exists>r. detection_loop ds zs m = Inr r \<and> (\<forall>k. k \<noteq> name z \<longrightarrow> r k = r' k)"
  using assms
proof (induction ds arbitrary: m m')
  case Nil
  then show ?case by simp
next
  case (Cons d ds)
  obtain x y w h cf where d: "d = (x, y, w, h, cf)" by (cases d)
  from Cons.prems(1) obtain c m1' where c: "centroid_of_bbox x y w h = Inr c"
    and zl: "zone_loop c (zs @ [z]) m' = Inr m1'" and dl: "detection_loop ds (zs @ [z]) m1' = Inr r'"
    unfolding d by (auto split: sum.splits)
  from zl obtain m2' where zl1: "zone_loop c zs m' = Inr m2'" and zl2: "zone_loop c [z] m2' = Inr m1'"
    by (auto simp: zone_loop_append split: sum.splits)
  have last: "\<forall>k. k \<noteq> name z \<longrightarrow> m2' k = m1' k"
    using zone_loop_other [OF zl2] by auto
  from zone_loop_sim [OF zl1 Cons.prems(2) Cons.prems(3)]
  obtain m2 where m2: "zone_loop c zs m = Inr m2" and a2: "\<forall>k. k \<noteq> name z \<longrightarrow> m2 k = m2' k"
    by blast
  have agree: "\<forall>k. k \<noteq> name z \<longrightarrow> m2 k = m1' k" using a2 last by simp
  from Cons.IH [OF dl agree Cons.prems(3)] show ?case
    unfolding d using c m2 by simp
qed

lemma init_counts_snoc: "init_counts (zs @ [z]) = (init_counts zs)(name z \<mapsto> 0)"
  by (simp add: init_counts_def)

subsection \<open>Rounding of values that are not small integers\<close>

lemma ilog2_upper:
  assumes "0 < q"
  shows "q < pow2 (ilog2 q + 1)"
proof -
  obtain a b where ab: "quotient_of q = (a, b)" by (cases "quotient_of q")
  have b: "0 < b" using ab quotient_of_denom_pos by blast
  have q: "q = of_int a / of_int b" using ab quotient_of_div by blast
  have a: "0 < a" using assms b q by (simp add: zero_less_divide_iff)
  have ua: "of_int a < (2::rat) ^ nat (bitlen a)"
  proof -
    have "a < (2::int) ^ nat (bitlen a)" using bitlen_bounds [OF a] by simp
    then have "(of_int a :: rat) < of_int ((2::int) ^ nat (bitlen a))"
      by (simp only: of_int_less_iff)
    then show ?thesis by simp
  qed
  have lb: "(2::rat) ^ nat (bitlen b - 1) \<le> of_int b"
  proof -
    have "(2::int) ^ nat (bitlen b - 1) \<le> b" using bitlen_bounds [OF b] by simp
    then have "(of_int ((2::int) ^ nat (bitlen b - 1)) :: rat) \<le> of_int b"
      by (simp only: of_int_le_iff)
    then show ?thesis by simp
  qed
  have ba: "0 < bitlen a"
  proof (rule ccontr)
    assume "\<not> 0 < bitlen a"
    then have "nat (bitlen a) = 0" by simp
    then show False using bitlen_bounds [OF a] a by simp
  qed
  have bb: "0 < bitlen b"
  proof (rule ccontr)
    assume "\<not> 0 < bitlen b"
    then have "nat (bitlen b) = 0" by simp
    then show False using bitlen_bounds [OF b] b by simp
  qed
  have p1: "pow2 (bitlen a) = 2 ^ nat (bitlen a)" using ba by (simp add: pow2_def)
  have p2: "pow2 (bitlen b - 1) = 2 ^ nat (bitlen b - 1)" using bb by (simp add: pow2_def)
  have "of_int a / of_int b < pow2 (bitlen a) / pow2 (bitlen b - 1)"
    unfolding p1 p2 using ua lb a b by (intro frac_less) simp_all
  also have "\<dots> = pow2 (bitlen a - bitlen b + 1)"
    using pow2_diff [of "bitlen a" "bitlen b - 1"] by (simp add: algebra_simps)
  finally have up: "q < pow2 (bitlen a - bitlen b + 1)" using q by simp
  show ?thesis
  proof (cases "pow2 (bitlen a - bitlen b) \<le> q")
    case True
    then show ?thesis using up by (simp add: ilog2_def ab Let_def)
  next
    case False
    then show ?thesis by (simp add: ilog2_def ab Let_def)
  qed
qed

lemma round_half_even_error: "\<bar>of_int (round_half_even q) - q\<bar> \<le> 1 / 2"
proof -
  have "of_int \<lfloor>q\<rfloor> \<le> q" "q < of_int \<lfloor>q\<rfloor> + 1" by linarith+
  then show ?thesis
    by (simp add: round_half_even_def Let_def abs_if) linarith
qed

lemma to_double_finite:
  assumes lo: "1 / 2 \<le> \<bar>q\<bar>" and hi: "\<bar>q\<bar> < pow2 60"
  shows "\<exists>r. to_double s q = Fin r \<and> r \<noteq> 0 \<and> (r < 0 \<longleftrightarrow> q < 0)"
proof -
  define e where "e = ilog2 \<bar>q\<bar>"
  define p where "p = e - 52"
  define x where "x = q / pow2 p"
  define n where "n = round_half_even x"
  have qpos: "0 < \<bar>q\<bar>" and qnz: "q \<noteq> 0" using lo by auto
  have low: "pow2 e \<le> \<bar>q\<bar>" unfolding e_def by (rule ilog2_lower [OF qpos])
  have upp: "\<bar>q\<bar> < pow2 (e + 1)" unfolding e_def by (rule ilog2_upper [OF qpos])
  have "pow2 (- 1) < pow2 (e + 1)" using lo upp by (simp add: pow2_def)
  then have e_lo: "- 1 \<le> e" using pow2_less_iff [of "- 1" "e + 1"] by simp
  have "pow2 e < pow2 60" using low hi by simp
  then have e_hi: "e < 60" by (simp only: pow2_less_iff)
  have pp: "0 < pow2 p" by (rule pow2_pos)
  have absx: "\<bar>x\<bar> = \<bar>q\<bar> / pow2 p" unfolding x_def using pp by (simp add: abs_divide)
  have x_lo: "pow2 52 \<le> \<bar>x\<bar>"
  proof -
    have "pow2 52 = pow2 e / pow2 p" unfolding p_def using pow2_diff [of e "e - 52"] by simp
    also have "\<dots> \<le> \<bar>q\<bar> / pow2 p" using low pp by (simp add: divide_right_mono)
    finally show ?thesis using absx by simp
  qed
  have x_hi: "\<bar>x\<bar> < pow2 53"
  proof -
    have "\<bar>q\<bar> / pow2 p < pow2 (e + 1) / pow2 p" using upp pp by (simp add: divide_strict_right_mono)
    also have "\<dots> = pow2 53" unfolding p_def using pow2_diff [of "e + 1" "e - 52"] by simp
    finally show ?thesis using absx by simp
  qed
  have err: "\<bar>of_int n - x\<bar> \<le> 1 / 2" unfolding n_def by (rule round_half_even_error)
  have p52: "pow2 52 = 2 ^ 52" and p53: "pow2 53 = 2 ^ 53" by (simp_all add: pow2_def)
  have n_sign: "(of_int n :: rat) < 0 \<longleftrightarrow> x < 0" using err x_lo unfolding p52 by (auto simp: abs_if split: if_splits)
  have n_nz: "(of_int n :: rat) \<noteq> 0" using err x_lo unfolding p52 by (auto simp: abs_if split: if_splits)
  have n_hi: "\<bar>of_int n :: rat\<bar> < pow2 54"
  proof -
    have "\<bar>of_int n :: rat\<bar> \<le> \<bar>x\<bar> + 1 / 2" using err by (auto simp: abs_if split: if_splits)
    also have "\<dots> < 2 ^ 54" using x_hi unfolding p53 by simp
    finally show ?thesis by (simp add: pow2_def)
  qed
  define r where "r = of_int n * pow2 p"
  have max_e: "max e (- 1022) = e" using e_lo by simp
  have rb: "round_binary64 q = r"
    using qnz by (simp add: round_binary64_def Let_def e_def [symmetric] max_e p_def [symmetric]
        x_def [symmetric] n_def [symmetric] r_def)
  have r_nz: "r \<noteq> 0" unfolding r_def using n_nz pp by simp
  have x_sign: "x < 0 \<longleftrightarrow> q < 0" unfolding x_def using pp by (simp add: divide_less_0_iff)
  have r_sign: "r < 0 \<longleftrightarrow> q < 0"
    unfolding r_def using n_sign x_sign pp by (simp add: mult_less_0_iff)
  have "\<bar>r\<bar> = \<bar>of_int n\<bar> * pow2 p" unfolding r_def using pp by (simp add: abs_mult)
  also have "\<dots> < pow2 54 * pow2 p" using n_hi pp by (simp add: mult_strict_right_mono)
  also have "\<dots> = pow2 (54 + p)" by (simp add: pow2_add)
  also have "\<dots> \<le> pow2 1024" using e_hi unfolding p_def by (intro pow2_mono) simp
  finally have r_hi: "\<bar>r\<bar> < pow2 1024" .
  have "pow2 (ilog2 \<bar>r\<bar>) \<le> \<bar>r\<bar>" using r_nz by (intro ilog2_lower) simp
  then have "pow2 (ilog2 \<bar>r\<bar>) < pow2 1024" using r_hi by simp
  then have "ilog2 \<bar>r\<bar> < 1024" by (simp only: pow2_less_iff)
  then have "to_double s q = Fin r" using r_nz by (simp add: to_double_def rb Let_def)
  then show ?thesis using r_nz r_sign by blast
qed

lemma eps_val: "eps = Fin (4835703278458517 / 4835703278458516698824704)"
  by code_simp

lemma to_double_int:
  assumes "\<bar>n\<bar> < 2 ^ 53"
  shows "to_double False (of_int n) = Fin (of_int n)"
  using float_of_int_exact [OF assms]
  by (auto simp: float_of_int_def split: double.splits)

lemma xinters_vertical:
  assumes x1: "\<bar>x1\<bar> < 2 ^ 53" and dy: "y2 \<noteq> y1" and dyb: "\<bar>y2 - y1\<bar> < 2 ^ 53"
  shows "xinters x1 y1 x1 y2 y = Inr (Fin (of_int x1))"
proof -
  define e0 :: rat where "e0 = 4835703278458517 / 4835703278458516698824704"
  have e0: "0 < e0" "e0 < 1 / 2" by (simp_all add: e0_def)
  have eps: "eps = Fin e0" by (simp add: eps_val e0_def)
  define d :: rat where "d = of_int (y2 - y1) + e0"
  have one: "1 \<le> \<bar>of_int (y2 - y1) :: rat\<bar>"
  proof -
    have "1 \<le> \<bar>y2 - y1\<bar>" using dy by simp
    then have "(of_int 1 :: rat) \<le> of_int \<bar>y2 - y1\<bar>" by (simp only: of_int_le_iff)
    then show ?thesis by simp
  qed
  have big: "\<bar>of_int (y2 - y1) :: rat\<bar> < 2 ^ 53"
  proof -
    have "(of_int \<bar>y2 - y1\<bar> :: rat) < of_int (2 ^ 53)" using dyb by (simp only: of_int_less_iff)
    then show ?thesis by simp
  qed
  have d_lo: "1 / 2 \<le> \<bar>d\<bar>" unfolding d_def using one e0 by (auto simp: abs_if split: if_splits)
  have d_hi: "\<bar>d\<bar> < pow2 60"
  proof -
    have "\<bar>d\<bar> \<le> \<bar>of_int (y2 - y1) :: rat\<bar> + e0" unfolding d_def using e0 by (auto simp: abs_if split: if_splits)
    also have "\<dots> < 2 ^ 60" using big e0 by simp
    finally show ?thesis by (simp add: pow2_def)
  qed
  from to_double_finite [OF d_lo d_hi, of False]
  obtain r where r: "to_double False d = Fin r" and rnz: "r \<noteq> 0" by blast
  have den: "fadd (Fin (of_int (y2 - y1))) eps = Fin r"
    unfolding eps using r by (simp add: fadd_def is_inf_def fval_def d_def)
  have quot: "fdiv (Fin 0) (Fin r) = Inr (if r < 0 then NegZero else Fin 0)"
    using rnz by (simp add: fdiv_def is_zero_def is_inf_def signbit_def fval_def to_double_zero)
  have last: "fadd (if r < 0 then NegZero else Fin 0) (Fin (of_int x1)) = Fin (of_int x1)"
    using to_double_int [OF x1] by (simp add: fadd_def is_inf_def fval_def)
  have zero: "float_of_int 0 = Inr (Fin 0)" using float_of_int_exact [of 0] by simp
  show ?thesis
    by (simp add: xinters_def float_of_int_exact [OF dyb] zero den quot float_of_int_exact [OF x1] last
          del: of_int_diff)
qed

lemma upt_4: "[0..<4] = [0, 1, 2, 3]"
  by (simp add: upt_rec)

lemma inside_square10_centre: "inside_polygon (5, 5) square10 = Inr True"
  by (simp add: inside_polygon_def square10_def upt_4 xinters_vertical int_lt_double_def)

lemma inside_square20_centre: "inside_polygon (5, 5) square20 = Inr True"
  by (simp add: inside_polygon_def square20_def upt_4 xinters_vertical int_lt_double_def)

lemma centroid_example: "centroid_of_bbox 0 0 10 10 = Inr (5, 5)"
  using centroid_exact [of 0 0 10 10] by (simp add: trunc_rat_def)

subsection \<open>The loop over the edges\<close>

lemma edge_loop_toggle:
  "k \<le> length poly \<Longrightarrow>
   edge_loop x y poly [k..<length poly] ins = toggle_edges x y (drop k (polygon_edges poly)) ins"
proof (induction "length poly - k" arbitrary: k ins)
  case 0
  then show ?case by (simp add: polygon_edges_def)
next
  case (Suc d)
  then have k: "k < length poly" by simp
  have upt: "[k..<length poly] = k # [Suc k..<length poly]" using k by (simp add: upt_rec)
  have dr: "drop k (polygon_edges poly) =
            (poly ! k, poly ! ((k + 1) mod length poly)) # drop (Suc k) (polygon_edges poly)"
    using k by (simp add: polygon_edges_def Cons_nth_drop_Suc [symmetric] nth_rotate1)
  have IH: "\<And>ins. edge_loop x y poly [Suc k..<length poly] ins =
                  toggle_edges x y (drop (Suc k) (polygon_edges poly)) ins"
    using Suc.hyps(1) [of "Suc k"] Suc.hyps(2) k by simp
  show ?case
    unfolding upt dr
    by (cases "poly ! k"; cases "poly ! ((k + 1) mod length poly)") (simp add: IH split: sum.splits)
qed

lemma xinters_small:
  assumes "\<bar>x1\<bar> < 2 ^ 25" "\<bar>x2\<bar> < 2 ^ 25" "\<bar>y1\<bar> < 2 ^ 25" "\<bar>y2\<bar> < 2 ^ 25" "\<bar>y\<bar> < 2 ^ 25"
  shows "xinters x1 y1 x2 y2 y =
         (case fdiv (Fin (of_int ((x2 - x1) * (y - y1)))) (fadd (Fin (of_int (y2 - y1))) eps) of
            Inl e \<Rightarrow> Inl e
          | Inr q \<Rightarrow> Inr (fadd q (Fin (of_int x1))))"
proof -
  have dx: "\<bar>x2 - x1\<bar> < 2 ^ 26" and dyy: "\<bar>y - y1\<bar> < 2 ^ 26" and dy: "\<bar>y2 - y1\<bar> < 2 ^ 53"
    and x1: "\<bar>x1\<bar> < 2 ^ 53"
    using assms by simp_all
  have "\<bar>(x2 - x1) * (y - y1)\<bar> = \<bar>x2 - x1\<bar> * \<bar>y - y1\<bar>" by (rule abs_mult)
  also have "\<dots> < 2 ^ 26 * 2 ^ 26"
    using dx dyy by (intro mult_strict_mono) simp_all
  also have "\<dots> < (2 :: int) ^ 53" by simp
  finally have num: "\<bar>(x2 - x1) * (y - y1)\<bar> < 2 ^ 53" .
  show ?thesis
    unfolding xinters_def
    by (simp only: float_of_int_exact [OF dy] float_of_int_exact [OF num]
        float_of_int_exact [OF x1] sum.case)
qed

text \<open>
  Claim C1. For a polygon of at least three points \<^verbatim>\<open>inside_polygon\<close> is the ray
  casting of the specification: over the edges with wrap-around, an edge counts when
  \<open>(y1 > y) \<noteq> (y2 > y)\<close>, the intersection is
  \<open>(x2 - x1) * (y - y1) / (y2 - y1 + 1e-9) + x1\<close> and the flag is toggled when \<open>x\<close> is
  strictly less. For coordinates below \<open>2\<^sup>2\<^sup>5\<close> in absolute value the integer parts of
  the intersection are exact, so that it is the float quotient of the product by the
  guarded difference, plus \<open>x1\<close>. For the square \<open>[(0,0),(10,0),(10,10),(0,10)]\<close> the
  point \<open>(5,5)\<close> is inside and the point \<open>(15,15)\<close> is outside.
\<close>

theorem inside_polygon_ray_casting:
  "(3 \<le> length poly \<longrightarrow> inside_polygon pt poly = ray_casting pt poly)
   \<and> (\<bar>x1\<bar> < 2 ^ 25 \<and> \<bar>x2\<bar> < 2 ^ 25 \<and> \<bar>y1\<bar> < 2 ^ 25 \<and> \<bar>y2\<bar> < 2 ^ 25 \<and> \<bar>y\<bar> < 2 ^ 25 \<longrightarrow>
      xinters x1 y1 x2 y2 y =
        (case fdiv (Fin (of_int ((x2 - x1) * (y - y1)))) (fadd (Fin (of_int (y2 - y1))) eps) of
           Inl e \<Rightarrow> Inl e
         | Inr q \<Rightarrow> Inr (fadd q (Fin (of_int x1)))))
   \<and> inside_polygon (5, 5) square10 = Inr True
   \<and> inside_polygon (15, 15) square10 = Inr False"
proof (intro conjI impI)
  assume "3 \<le> length poly"
  then show "inside_polygon pt poly = ray_casting pt poly"
    using edge_loop_toggle [of 0 poly "fst pt" "snd pt" False]
    by (cases pt) (simp add: inside_polygon_def ray_casting_def)
next
  assume "\<bar>x1\<bar> < 2 ^ 25 \<and> \<bar>x2\<bar> < 2 ^ 25 \<and> \<bar>y1\<bar> < 2 ^ 25 \<and> \<bar>y2\<bar> < 2 ^ 25 \<and> \<bar>y\<bar> < 2 ^ 25"
  then show "xinters x1 y1 x2 y2 y =
        (case fdiv (Fin (of_int ((x2 - x1) * (y - y1)))) (fadd (Fin (of_int (y2 - y1))) eps) of
           Inl e \<Rightarrow> Inl e
         | Inr q \<Rightarrow> Inr (fadd q (Fin (of_int x1))))"
    by (intro xinters_small) simp_all
next
  show "inside_polygon (5, 5) square10 = Inr True" by (rule inside_square10_centre)
next
  show "inside_polygon (15, 15) square10 = Inr False"
    by (simp add: inside_polygon_def square10_def upt_4 xinters_vertical int_lt_double_def)
qed

theorem inside_polygon_ray_casting_witness:
  "3 \<le> length square10 \<and> inside_polygon (5, 5) square10 = ray_casting (5, 5) square10
   \<and> ray_casting (5, 5) square10 = Inr True
   \<and> \<bar>10 :: int\<bar> < 2 ^ 25 \<and> \<bar>0 :: int\<bar> < 2 ^ 25 \<and> \<bar>5 :: int\<bar> < 2 ^ 25
   \<and> xinters 10 0 10 10 5 =
       (case fdiv (Fin (of_int ((10 - 10) * (5 - 0)))) (fadd (Fin (of_int (10 - 0))) eps) of
          Inl e \<Rightarrow> Inl e
        | Inr q \<Rightarrow> Inr (fadd q (Fin (of_int 10))))"
proof -
  have len: "3 \<le> length square10" by (simp add: square10_def)
  have b: "\<bar>10 :: int\<bar> < 2 ^ 25 \<and> \<bar>10 :: int\<bar> < 2 ^ 25 \<and> \<bar>0 :: int\<bar> < 2 ^ 25
           \<and> \<bar>10 :: int\<bar> < 2 ^ 25 \<and> \<bar>5 :: int\<bar> < 2 ^ 25"
    by simp
  note t = inside_polygon_ray_casting
             [where poly = square10 and pt = "(5, 5)" and ?x1.0 = 10 and ?x2.0 = 10
                and ?y1.0 = 0 and ?y2.0 = 10 and y = 5]
  from t len have 1: "inside_polygon (5, 5) square10 = ray_casting (5, 5) square10"
    and 2: "inside_polygon (5, 5) square10 = Inr True"
    by blast+
  from t b have 3: "xinters 10 0 10 10 5 =
       (case fdiv (Fin (of_int ((10 - 10) * (5 - 0)))) (fadd (Fin (of_int (10 - 0))) eps) of
          Inl e \<Rightarrow> Inl e
        | Inr q \<Rightarrow> Inr (fadd q (Fin (of_int 10))))"
    by blast
  have 4: "ray_casting (5, 5) square10 = Inr True" using 1 2 by simp
  from len 1 4 b 3 show ?thesis by (intro conjI) (simp_all only:)
qed

text \<open>
  Claim C10. For the square \<open>[(0,0),(10,0),(10,10),(0,10)]\<close> the point \<open>(10,5)\<close> on the
  right edge is outside: the intersection with that edge is exactly 10, and the flag is
  toggled only when \<open>x\<close> is strictly less than the intersection.
\<close>

theorem boundary_point_outside:
  "inside_polygon (10, 5) square10 = Inr False
   \<and> xinters 10 0 10 10 5 = Inr (Fin 10)
   \<and> \<not> int_lt_double 10 (Fin 10)"
  by (simp add: inside_polygon_def square10_def upt_4 xinters_vertical int_lt_double_def)

text \<open>
  Claim C9. The tally takes for a detection \<open>(x, y, w, h)\<close> the centroid
  \<open>(x + w/2, y + h/2)\<close> truncated to integers (for coordinates below \<open>2\<^sup>5\<^sup>1\<close> in
  magnitude no float operation rounds); the detection \<open>(0, 0, 10, 10, 0.9)\<close> has the
  centroid \<open>(5, 5)\<close>, and against the single zone A = \<open>[(0,0),(20,0),(20,20),(0,20)]\<close>
  the tally is \<open>{A: 1}\<close>.
\<close>

theorem centroid_and_tally:
  "(\<bar>x\<bar> < 2 ^ 51 \<and> \<bar>y\<bar> < 2 ^ 51 \<and> \<bar>w\<bar> < 2 ^ 51 \<and> \<bar>h\<bar> < 2 ^ 51 \<longrightarrow>
      centroid_of_bbox x y w h =
        Inr (trunc_rat (of_int x + of_int w / 2), trunc_rat (of_int y + of_int h / 2)))
   \<and> zone_counts [(x, y, w, h, cf)] [z] =
       (case centroid_of_bbox x y w h of
          Inl e \<Rightarrow> Inl e
        | Inr c \<Rightarrow> (case inside_polygon c (points z) of
                      Inl e \<Rightarrow> Inl e
                    | Inr b \<Rightarrow> Inr [name z \<mapsto> (if b then 1 else 0)]))
   \<and> centroid_of_bbox 0 0 10 10 = Inr (5, 5)
   \<and> zone_counts [(0, 0, 10, 10, conf09)] [\<lparr>name = ''A'', points = square20\<rparr>] = Inr [''A'' \<mapsto> 1]"
proof (intro conjI impI)
  assume "\<bar>x\<bar> < 2 ^ 51 \<and> \<bar>y\<bar> < 2 ^ 51 \<and> \<bar>w\<bar> < 2 ^ 51 \<and> \<bar>h\<bar> < 2 ^ 51"
  then show "centroid_of_bbox x y w h =
        Inr (trunc_rat (of_int x + of_int w / 2), trunc_rat (of_int y + of_int h / 2))"
    by (simp add: centroid_exact)
next
  show "zone_counts [(x, y, w, h, cf)] [z] =
       (case centroid_of_bbox x y w h of
          Inl e \<Rightarrow> Inl e
        | Inr c \<Rightarrow> (case inside_polygon c (points z) of
                      Inl e \<Rightarrow> Inl e
                    | Inr b \<Rightarrow> Inr [name z \<mapsto> (if b then 1 else 0)]))"
    by (simp add: zone_counts_def init_counts_def increment_def split: sum.splits)
next
  show "centroid_of_bbox 0 0 10 10 = Inr (5, 5)" by (rule centroid_example)
next
  show "zone_counts [(0, 0, 10, 10, conf09)] [\<lparr>name = ''A'', points = square20\<rparr>] = Inr [''A'' \<mapsto> 1]"
    by (simp add: zone_counts_def init_counts_def increment_def centroid_example
        inside_square20_centre)
qed

theorem centroid_and_tally_witness:
  "\<bar>- 7 :: int\<bar> < 2 ^ 51 \<and> \<bar>3 :: int\<bar> < 2 ^ 51 \<and> \<bar>3 :: int\<bar> < 2 ^ 51 \<and> \<bar>9 :: int\<bar> < 2 ^ 51
   \<and> centroid_of_bbox (- 7) 3 3 9 = Inr (- 5, 7)"
proof -
  have fl: "\<lfloor>15 / 2 :: rat\<rfloor> = 7" and ce: "\<lceil>- (11 / 2) :: rat\<rceil> = - 5"
    by linarith+
  have "centroid_of_bbox (- 7) 3 3 9 =
        Inr (trunc_rat (of_int (- 7) + of_int 3 / 2), trunc_rat (of_int 3 + of_int 9 / 2))"
    using centroid_and_tally [of "- 7" 3 3 9] by simp
  then show ?thesis by (simp add: trunc_rat_def fl ce)
qed

text \<open>
  Claim C7 as stated fails when the added zone has the name of a zone already present:
  both polygons then add to the one entry of the dictionary.
\<close>

theorem same_name_changes_count:
  "tally [(0, 0, 10, 10, conf09)] [\<lparr>name = ''A'', points = square20\<rparr>] ''A'' = Inr 1
   \<and> tally [(0, 0, 10, 10, conf09)]
        ([\<lparr>name = ''A'', points = square20\<rparr>] @ [\<lparr>name = ''A'', points = square10\<rparr>]) ''A''
      = Inr 2"
  by (simp add: tally_def zone_counts_def init_counts_def increment_def count_of_def
      centroid_example inside_square20_centre inside_square10_centre)

text \<open>
  Claim C7 (amended). Appending a zone whose name differs from the names of the zones
  already present leaves the count of every zone already present unchanged, whenever the
  tally with the added zone is computed without an exception.
\<close>

theorem new_zone_keeps_counts:
  assumes "name z \<notin> name ` set zs" and "zone_counts dets (zs @ [z]) = Inr c'"
  shows "\<exists>c. zone_counts dets zs = Inr c \<and> (\<forall>k \<in> name ` set zs. c' k = c k)"
proof -
  have agree: "\<forall>k. k \<noteq> name z \<longrightarrow> init_counts zs k = init_counts (zs @ [z]) k"
    by (simp add: init_counts_snoc)
  from detection_loop_sim [OF assms(2) [unfolded zone_counts_def] agree assms(1)]
  obtain c where c: "detection_loop dets zs (init_counts zs) = Inr c"
    and same: "\<forall>k. k \<noteq> name z \<longrightarrow> c k = c' k"
    by blast
  have "c' k = c k" if "k \<in> name ` set zs" for k
  proof -
    have "k \<noteq> name z" using that assms(1) by blast
    then show ?thesis using same by simp
  qed
  then show ?thesis using c by (simp add: zone_counts_def)
qed

theorem new_zone_keeps_counts_witness:
  "name \<lparr>name = ''B'', points = square10\<rparr> \<notin> name ` set [\<lparr>name = ''A'', points = square20\<rparr>]
   \<and> zone_counts [(0, 0, 10, 10, conf09)]
        ([\<lparr>name = ''A'', points = square20\<rparr>] @ [\<lparr>name = ''B'', points = square10\<rparr>])
       = Inr [''A'' \<mapsto> 0, ''B'' \<mapsto> 0, ''A'' \<mapsto> 1, ''B'' \<mapsto> 1]
   \<and> (\<exists>c. zone_counts [(0, 0, 10, 10, conf09)] [\<lparr>name = ''A'', points = square20\<rparr>] = Inr c
        \<and> c ''A'' = Some 1)"
proof -
  have run: "zone_counts [(0, 0, 10, 10, conf09)]
        ([\<lparr>name = ''A'', points = square20\<rparr>] @ [\<lparr>name = ''B'', points = square10\<rparr>])
       = Inr [''A'' \<mapsto> 0, ''B'' \<mapsto> 0, ''A'' \<mapsto> 1, ''B'' \<mapsto> 1]"
    by (simp add: zone_counts_def init_counts_def increment_def centroid_example
        inside_square20_centre inside_square10_centre)
  have fresh: "name \<lparr>name = ''B'', points = square10\<rparr>
        \<notin> name ` set [\<lparr>name = ''A'', points = square20\<rparr>]"
    by simp
  from new_zone_keeps_counts [OF fresh run]
  show ?thesis using run by auto
qed

subsection \<open>The zone editor\<close>

lemma current_zones_cong:
  assumes "zones st' = zones st"
    and "\<And>r. r \<in> set (zones st) \<Longrightarrow> heap st' (ref_points r) = heap st (ref_points r)"
  shows "current_zones st' = current_zones st"
  using assms by (simp add: current_zones_def zone_at_def)

lemma on_mouse_active: "active_polygon (on_mouse p st) = active_polygon st @ [p]"
  by (simp add: on_mouse_def active_polygon_def)

lemma on_mouse_zones: "heap_ok st \<Longrightarrow> current_zones (on_mouse p st) = current_zones st"
  by (rule current_zones_cong) (auto simp: on_mouse_def heap_ok_def)

lemma on_mouse_heap_ok: "heap_ok st \<Longrightarrow> heap_ok (on_mouse p st)"
  by (simp add: on_mouse_def heap_ok_def)

lemma on_mouse_counter: "zone_counter (on_mouse p st) = zone_counter st"
  by (simp add: on_mouse_def)

lemma undo_point_heap_ok: "heap_ok st \<Longrightarrow> heap_ok (undo_point st)"
  by (simp add: undo_point_def heap_ok_def)

lemma finalize_active: "heap_ok st \<Longrightarrow> active_polygon (finalize st) = []"
  by (simp add: finalize_def active_polygon_def new_list_def Let_def)

lemma finalize_short:
  assumes "heap_ok st" and "length (active_polygon st) < 3"
  shows "current_zones (finalize st) = current_zones st"
proof (rule current_zones_cong)
  show "zones (finalize st) = zones st"
    using assms(2) by (simp add: finalize_def active_polygon_def Let_def)
next
  fix r assume "r \<in> set (zones st)"
  then show "heap (finalize st) (ref_points r) = heap st (ref_points r)"
    using assms by (auto simp: finalize_def active_polygon_def Let_def heap_ok_def)
qed

lemma finalize_commit:
  assumes ok: "heap_ok st" and len: "3 \<le> length (active_polygon st)"
  shows "current_zones (finalize st) =
         current_zones st @ [\<lparr>name = default_name (zone_counter st + 1), points = active_polygon st\<rparr>]"
proof -
  have old: "map (zone_at (finalize st)) (zones st) = map (zone_at st) (zones st)"
    using ok len
    by (auto simp: finalize_def active_polygon_def Let_def heap_ok_def new_list_def zone_at_def)
  have act: "active st \<noteq> next_addr st" using ok by (simp add: heap_ok_def)
  show ?thesis
    using len act old
    by (simp add: current_zones_def)
       (simp add: finalize_def active_polygon_def Let_def new_list_def zone_at_def default_name_def)
qed

lemma finalize_heap_ok: "heap_ok st \<Longrightarrow> heap_ok (finalize st)"
  by (auto simp: finalize_def heap_ok_def Let_def new_list_def)

lemma finalize_counter:
  "zone_counter (finalize st) = (if 3 \<le> length (active_polygon st) then zone_counter st + 1 else zone_counter st)"
  by (simp add: finalize_def Let_def new_list_def active_polygon_def)

text \<open>
  Claim C3. The key \<^verbatim>\<open>n\<close> finalizes: with at least three points in the active polygon
  exactly one zone is appended, named \<open>Zone (zone_counter + 1)\<close>, whose points are a
  copy of the active polygon (later clicks do not change it), and the active polygon is
  cleared; with fewer points no zone is created and the active polygon is cleared. Three
  clicks and the key give one zone with these three points, two clicks and the key none.
\<close>

theorem finalize_transition:
  assumes "heap_ok st"
  shows "handle_key a (CHR ''n'') st = Continue (finalize st)
    \<and> active_polygon (finalize st) = []
    \<and> (3 \<le> length (active_polygon st) \<longrightarrow>
         current_zones (finalize st) =
           current_zones st
           @ [\<lparr>name = default_name (zone_counter st + 1), points = active_polygon st\<rparr>])
    \<and> (length (active_polygon st) < 3 \<longrightarrow> current_zones (finalize st) = current_zones st)
    \<and> current_zones (on_mouse q (finalize st)) = current_zones (finalize st)
    \<and> (active_polygon st = [] \<longrightarrow>
         current_zones (finalize (on_mouse p3 (on_mouse p2 (on_mouse p1 st)))) =
           current_zones st
           @ [\<lparr>name = default_name (zone_counter st + 1), points = [p1, p2, p3]\<rparr>]
         \<and> active_polygon (finalize (on_mouse p3 (on_mouse p2 (on_mouse p1 st)))) = [])
    \<and> (active_polygon st = [] \<longrightarrow>
         current_zones (finalize (on_mouse p2 (on_mouse p1 st))) = current_zones st
         \<and> active_polygon (finalize (on_mouse p2 (on_mouse p1 st))) = [])"
proof (intro conjI impI)
  show "handle_key a (CHR ''n'') st = Continue (finalize st)" by (simp add: handle_key_def)
  show "active_polygon (finalize st) = []" by (rule finalize_active [OF assms])
  show "current_zones (on_mouse q (finalize st)) = current_zones (finalize st)"
    by (rule on_mouse_zones [OF finalize_heap_ok [OF assms]])
next
  assume "3 \<le> length (active_polygon st)"
  then show "current_zones (finalize st) =
           current_zones st
           @ [\<lparr>name = default_name (zone_counter st + 1), points = active_polygon st\<rparr>]"
    by (rule finalize_commit [OF assms])
next
  assume "length (active_polygon st) < 3"
  then show "current_zones (finalize st) = current_zones st" by (rule finalize_short [OF assms])
next
  assume idle: "active_polygon st = []"
  let ?s3 = "on_mouse p3 (on_mouse p2 (on_mouse p1 st))"
  have ok3: "heap_ok ?s3" by (intro on_mouse_heap_ok assms)
  have act3: "active_polygon ?s3 = [p1, p2, p3]" by (simp add: on_mouse_active idle)
  have z3: "current_zones ?s3 = current_zones st"
    by (simp add: on_mouse_zones on_mouse_heap_ok assms)
  show "current_zones (finalize ?s3) =
           current_zones st
           @ [\<lparr>name = default_name (zone_counter st + 1), points = [p1, p2, p3]\<rparr>]"
    using finalize_commit [OF ok3] by (simp add: act3 z3 on_mouse_counter)
  show "active_polygon (finalize ?s3) = []" by (rule finalize_active [OF ok3])
next
  assume idle: "active_polygon st = []"
  let ?s2 = "on_mouse p2 (on_mouse p1 st)"
  have ok2: "heap_ok ?s2" by (intro on_mouse_heap_ok assms)
  have act2: "active_polygon ?s2 = [p1, p2]" by (simp add: on_mouse_active idle)
  have z2: "current_zones ?s2 = current_zones st"
    by (simp add: on_mouse_zones on_mouse_heap_ok assms)
  show "current_zones (finalize ?s2) = current_zones st"
    using finalize_short [OF ok2] by (simp add: act2 z2)
  show "active_polygon (finalize ?s2) = []" by (rule finalize_active [OF ok2])
qed

subsection \<open>The states that \<^verbatim>\<open>main\<close> reaches\<close>

lemma default_name_1: "default_name 1 = ''Zone 1''"
  by (simp add: default_name_def str_int_def digit_char_def)

lemma main_init_idle: "main_init args0 Map.empty = Continue idle_state"
proof -
  have h: "(\<lambda>a::nat. [] :: polygon)(0 := []) = (\<lambda>a. [])" by (simp add: fun_eq_iff)
  show ?thesis
    by (simp add: main_init_def load_into_def load_zones_def args0_def empty_state_def
        new_list_def csv_enabled_def idle_state_def current_zones_def h)
qed

lemma idle_state_ok: "heap_ok idle_state"
  by (simp add: idle_state_def heap_ok_def empty_state_def)

theorem finalize_transition_witness:
  "heap_ok idle_state
   \<and> handle_key args0 (CHR ''n'') idle_state = Continue (finalize idle_state)
   \<and> current_zones (finalize (on_mouse (3, 4) (on_mouse (5, 1) (on_mouse (1, 1) idle_state)))) =
       [\<lparr>name = ''Zone 1'', points = [(1, 1), (5, 1), (3, 4)]\<rparr>]
   \<and> current_zones (finalize (on_mouse (5, 1) (on_mouse (1, 1) idle_state))) = []"
proof -
  have idle: "active_polygon idle_state = []" "current_zones idle_state = []"
    "zone_counter idle_state = 0"
    by (simp_all add: idle_state_def empty_state_def active_polygon_def current_zones_def)
  from finalize_transition [OF idle_state_ok, of args0 "(0, 0)" "(3, 4)" "(5, 1)" "(1, 1)"]
  show ?thesis using idle idle_state_ok by (simp add: default_name_1)
qed

lemma store_zones_fields:
  "store_zones zs st = (rs, st') \<Longrightarrow>
   active st' = active st \<and> zones st' = zones st \<and> csv_f st' = csv_f st
   \<and> frame_idx st' = frame_idx st \<and> zone_counter st' = zone_counter st
   \<and> files st' = files st \<and> history st' = history st \<and> paused st' = paused st
   \<and> help_on st' = help_on st"
proof (induction zs arbitrary: st rs st')
  case Nil
  then show ?case by simp
next
  case (Cons z zs)
  obtain rs2 st2 where r: "store_zones zs (snd (new_list (points z) st)) = (rs2, st2)"
    by (cases "store_zones zs (snd (new_list (points z) st))")
  from Cons.IH [OF r] Cons.prems r show ?case
    by (auto simp: new_list_def split: prod.splits)
qed

lemma store_zones_heap:
  "store_zones zs st = (rs, st') \<Longrightarrow>
   next_addr st \<le> next_addr st' \<and> (\<forall>a < next_addr st. heap st' a = heap st a)"
proof (induction zs arbitrary: st rs st')
  case Nil
  then show ?case by simp
next
  case (Cons z zs)
  obtain rs2 st2 where r: "store_zones zs (snd (new_list (points z) st)) = (rs2, st2)"
    by (cases "store_zones zs (snd (new_list (points z) st))")
  from Cons.IH [OF r] Cons.prems r show ?case
    by (auto simp: new_list_def split: prod.splits)
qed

lemma store_zones_view:
  "store_zones zs st = (rs, st') \<Longrightarrow>
   map (\<lambda>r. \<lparr>name = ref_name r, points = heap st' (ref_points r)\<rparr>) rs = zs
   \<and> (\<forall>r \<in> set rs. next_addr st \<le> ref_points r \<and> ref_points r < next_addr st')"
proof (induction zs arbitrary: st rs st')
  case Nil
  then show ?case by simp
next
  case (Cons z zs)
  let ?st1 = "snd (new_list (points z) st)"
  obtain rs2 st2 where r: "store_zones zs ?st1 = (rs2, st2)"
    by (cases "store_zones zs ?st1")
  have rs: "rs = \<lparr>ref_name = name z, ref_points = next_addr st\<rparr> # rs2" and st': "st' = st2"
    using Cons.prems r by (auto simp: new_list_def split: prod.splits)
  have n1: "next_addr ?st1 = Suc (next_addr st)" and h1: "heap ?st1 (next_addr st) = points z"
    by (simp_all add: new_list_def)
  from store_zones_heap [OF r] have keep: "heap st2 (next_addr st) = points z"
    and le: "next_addr ?st1 \<le> next_addr st2"
    using n1 h1 by auto
  from Cons.IH [OF r] show ?case
    unfolding rs st' using keep le n1 by auto
qed

lemma load_into_props:
  assumes "load_into a st = Continue st'"
  shows "\<exists>raws zs rs st1. load_zones (arg_zones a) (files st) = Inr raws
           \<and> zones_of_raw raws = Some zs \<and> store_zones zs st = (rs, st1)
           \<and> st' = st1\<lparr>zones := rs\<rparr>"
  using assms by (auto simp: load_into_def split: sum.splits option.splits prod.splits)

lemma load_into_view:
  assumes "load_into a st = Continue st'"
  shows "\<exists>raws. load_zones (arg_zones a) (files st) = Inr raws
           \<and> zones_of_raw raws = Some (current_zones st')"
proof -
  from load_into_props [OF assms] obtain raws zs rs st1 where
    l: "load_zones (arg_zones a) (files st) = Inr raws" and z: "zones_of_raw raws = Some zs"
    and s: "store_zones zs st = (rs, st1)" and st': "st' = st1\<lparr>zones := rs\<rparr>"
    by blast
  have "zone_at (st1\<lparr>zones := rs\<rparr>) =
        (\<lambda>r. \<lparr>name = ref_name r, points = heap st1 (ref_points r)\<rparr>)"
    by (simp add: fun_eq_iff zone_at_def)
  then have "current_zones st' = zs"
    using store_zones_view [OF s] by (simp add: st' current_zones_def)
  then show ?thesis using l z by simp
qed

text \<open>
  Claim C6. Saving a zone collection to a path and loading from that path gives the
  same names and the same point sequences, in the same order; in \<^verbatim>\<open>main\<close>, the key
  \<^verbatim>\<open>l\<close> after the key \<^verbatim>\<open>s\<close> gives back the zone collection that was saved.
\<close>

theorem save_load_roundtrip:
  "load_zones path (save_zones path zs fs) = Inr (map raw_of_zone zs)
   \<and> zones_of_raw (map raw_of_zone zs) = Some zs
   \<and> (\<exists>st2. handle_key a (CHR ''l'')
                (st\<lparr>files := save_zones (arg_zones a) (current_zones st) (files st)\<rparr>)
              = Continue st2
            \<and> current_zones st2 = current_zones st)"
proof (intro conjI)
  show "load_zones path (save_zones path zs fs) = Inr (map raw_of_zone zs)"
    by (simp add: load_zones_def save_zones_def py_iter_def load_records_zone_json)
next
  show "zones_of_raw (map raw_of_zone zs) = Some zs" by (rule zones_of_raw_roundtrip)
next
  let ?st1 = "st\<lparr>files := save_zones (arg_zones a) (current_zones st) (files st)\<rparr>"
  have l: "load_zones (arg_zones a) (files ?st1) = Inr (map raw_of_zone (current_zones st))"
    by (simp add: load_zones_def save_zones_def py_iter_def load_records_zone_json)
  obtain rs st' where s: "store_zones (current_zones st) ?st1 = (rs, st')"
    by (cases "store_zones (current_zones st) ?st1")
  have c: "load_into a ?st1 = Continue (st'\<lparr>zones := rs\<rparr>)"
    unfolding load_into_def
    by (simp only: l zones_of_raw_roundtrip s sum.case option.case prod.case)
  from load_into_view [OF c]
  have "zones_of_raw (map raw_of_zone (current_zones st))
        = Some (current_zones (st'\<lparr>zones := rs\<rparr>))"
    using l by simp
  then have "current_zones (st'\<lparr>zones := rs\<rparr>) = current_zones st"
    by (simp add: zones_of_raw_roundtrip)
  then show "\<exists>st2. handle_key a (CHR ''l'') ?st1 = Continue st2
                 \<and> current_zones st2 = current_zones st"
    using c by (simp add: handle_key_def)
qed

lemma load_into_frame:
  assumes "load_into a st = Continue st'"
  shows "csv_f st' = csv_f st \<and> frame_idx st' = frame_idx st \<and> active st' = active st
         \<and> next_addr st \<le> next_addr st' \<and> (\<forall>x < next_addr st. heap st' x = heap st x)
         \<and> (\<forall>r \<in> set (zones st'). next_addr st \<le> ref_points r \<and> ref_points r < next_addr st')"
proof -
  from load_into_props [OF assms] obtain raws zs rs st1 where
    s: "store_zones zs st = (rs, st1)" and st': "st' = st1\<lparr>zones := rs\<rparr>"
    by blast
  show ?thesis
    using store_zones_fields [OF s] store_zones_heap [OF s] store_zones_view [OF s]
    by (simp add: st')
qed

lemma load_into_heap_ok:
  assumes "heap_ok st" and "load_into a st = Continue st'"
  shows "heap_ok st' \<and> active_polygon st' = active_polygon st"
  using load_into_frame [OF assms(2)] assms(1)
  by (auto simp: heap_ok_def active_polygon_def)

lemma main_init_props:
  assumes "main_init a fs = Continue st0"
  shows "heap_ok st0 \<and> active_polygon st0 = [] \<and> frame_idx st0 = 0
         \<and> csv_f st0 = (if csv_enabled a then Some [csv_header (current_zones st0)] else None)
         \<and> (\<exists>raws. load_zones (arg_zones a) fs = Inr raws
               \<and> zones_of_raw raws = Some (current_zones st0))"
proof -
  from assms obtain st1 where l: "load_into a (empty_state fs) = Continue st1"
    and st0: "st0 = (snd (new_list [] st1))\<lparr>active := next_addr st1,
                           zone_counter := int (length (zones (snd (new_list [] st1)))),
                           help_on := True, paused := False,
                           csv_f := (if csv_enabled a
                                     then Some [csv_header (current_zones (snd (new_list [] st1)))]
                                     else None),
                           frame_idx := 0\<rparr>"
    by (auto simp: main_init_def new_list_def split: outcome.splits)
  have fr: "\<forall>r \<in> set (zones st1). ref_points r < next_addr st1"
    using load_into_frame [OF l] by auto
  have same: "current_zones st0 = current_zones st1"
    by (rule current_zones_cong) (use fr in \<open>auto simp: st0 new_list_def\<close>)
  have same2: "current_zones (snd (new_list [] st1)) = current_zones st1"
    by (rule current_zones_cong) (use fr in \<open>auto simp: new_list_def\<close>)
  have files: "files (empty_state fs) = fs" by (simp add: empty_state_def)
  have ok: "heap_ok st0" using fr by (auto simp: st0 heap_ok_def new_list_def)
  have act: "active_polygon st0 = []" by (simp add: st0 active_polygon_def new_list_def)
  have csv0: "csv_f st0 = (if csv_enabled a
                 then Some [csv_header (current_zones (snd (new_list [] st1)))] else None)"
    by (simp add: st0)
  have csv: "csv_f st0 = (if csv_enabled a then Some [csv_header (current_zones st0)] else None)"
    using csv0 by (simp add: same same2)
  have idx: "frame_idx st0 = 0" by (simp add: st0)
  from load_into_view [OF l] show ?thesis
    using ok act csv idx by (simp add: same files)
qed

lemma handle_key_frame:
  assumes "handle_key a k st = Continue st'"
  shows "csv_f st' = csv_f st \<and> frame_idx st' = frame_idx st"
proof (cases "k = CHR ''l''")
  case True
  then have "load_into a st = Continue st'" using assms by (simp add: handle_key_def)
  then show ?thesis using load_into_frame by blast
next
  case False
  then show ?thesis using assms
    by (auto simp: handle_key_def undo_point_def finalize_def Let_def new_list_def
        split: if_splits)
qed

lemma handle_key_heap_ok:
  assumes "heap_ok st" and "handle_key a k st = Continue st'"
  shows "heap_ok st'"
proof (cases "k = CHR ''l''")
  case True
  then have "load_into a st = Continue st'" using assms by (simp add: handle_key_def)
  then show ?thesis using load_into_heap_ok assms(1) by blast
next
  case False
  have save: "heap_ok (st\<lparr>files := f\<rparr>)" for f using assms(1) by (simp add: heap_ok_def)
  have flag: "heap_ok (st\<lparr>help_on := b\<rparr>)" "heap_ok (st\<lparr>paused := b\<rparr>)" for b
    using assms(1) by (simp_all add: heap_ok_def)
  show ?thesis using assms False save flag
    by (auto simp: handle_key_def undo_point_heap_ok finalize_heap_ok split: if_splits)
qed

lemma clicks_frame:
  "csv_f (foldl (\<lambda>s p. on_mouse p s) st ps) = csv_f st
   \<and> frame_idx (foldl (\<lambda>s p. on_mouse p s) st ps) = frame_idx st"
  by (induction ps arbitrary: st) (simp_all add: on_mouse_def)

lemma clicks_heap_ok: "heap_ok st \<Longrightarrow> heap_ok (foldl (\<lambda>s p. on_mouse p s) st ps)"
  by (induction ps arbitrary: st) (simp_all add: on_mouse_heap_ok)

lemma process_frame_log:
  assumes "process_frame bfg np a img dets st = Continue st'"
  shows "\<exists>avg mv fg m.
           compute_motion_percent bfg np (history st) img dets (arg_bs_thresh a) = Inr (avg, mv, fg)
           \<and> zone_counts dets (current_zones st) = Inr m
           \<and> csv_f st' = (case csv_f st of None \<Rightarrow> None
                          | Some ls \<Rightarrow> Some (ls @ [csv_row (frame_idx st) dets avg m (current_zones st)]))
           \<and> frame_idx st' = frame_idx st + 1"
  using assms by (auto simp: process_frame_def split: sum.splits prod.splits)

lemma process_frame_heap_ok:
  assumes "heap_ok st" and "process_frame bfg np a img dets st = Continue st'"
  shows "heap_ok st' \<and> current_zones st' = current_zones st \<and> active_polygon st' = active_polygon st"
  using assms
  by (auto simp: process_frame_def heap_ok_def current_zones_def zone_at_def active_polygon_def
      split: sum.splits prod.splits)

lemma iteration_log_inv:
  assumes "log_inv hdr st" and "iteration bfg np a inp st = Continue st'"
  shows "log_inv hdr st'"
proof -
  define mid where "mid = (if paused st then Continue st
            else case frame inp of
                   None \<Rightarrow> Break st
                 | Some (img, dets) \<Rightarrow> process_frame bfg np a img dets st)"
  from assms(2) obtain st1 where m: "mid = Continue st1"
    and k: "handle_key a (key inp) (foldl (\<lambda>s p. on_mouse p s) st1 (clicks inp)) = Continue st'"
    unfolding iteration_def mid_def [symmetric] by (cases mid) auto
  have "log_inv hdr st1"
  proof (cases "paused st")
    case True
    then show ?thesis using m assms(1) by (simp add: mid_def)
  next
    case False
    then obtain img dets where "process_frame bfg np a img dets st = Continue st1"
      using m by (auto simp: mid_def split: option.splits)
    from process_frame_log [OF this] assms(1) show ?thesis
      by (auto simp: log_inv_def)
  qed
  then show ?thesis
    using handle_key_frame [OF k] clicks_frame [of st1 "clicks inp"] by (simp add: log_inv_def)
qed

lemma run_log_inv:
  "log_inv hdr st \<Longrightarrow> run bfg np a inps st = Continue st' \<Longrightarrow> log_inv hdr st'"
proof (induction inps arbitrary: st)
  case Nil
  then show ?case by simp
next
  case (Cons inp inps)
  from Cons.prems(2) obtain st1 where i: "iteration bfg np a inp st = Continue st1"
    and r: "run bfg np a inps st1 = Continue st'"
    by (auto split: outcome.splits)
  from Cons.IH [OF iteration_log_inv [OF Cons.prems(1) i] r] show ?case .
qed

text \<open>Every state that \<^verbatim>\<open>main\<close> reaches has a consistent heap.\<close>

lemma iteration_heap_ok:
  assumes "heap_ok st" and "iteration bfg np a inp st = Continue st'"
  shows "heap_ok st'"
proof -
  define mid where "mid = (if paused st then Continue st
            else case frame inp of
                   None \<Rightarrow> Break st
                 | Some (img, dets) \<Rightarrow> process_frame bfg np a img dets st)"
  from assms(2) obtain st1 where m: "mid = Continue st1"
    and k: "handle_key a (key inp) (foldl (\<lambda>s p. on_mouse p s) st1 (clicks inp)) = Continue st'"
    unfolding iteration_def mid_def [symmetric] by (cases mid) auto
  have "heap_ok st1"
  proof (cases "paused st")
    case True
    then show ?thesis using m assms(1) by (simp add: mid_def)
  next
    case False
    then obtain img dets where "process_frame bfg np a img dets st = Continue st1"
      using m by (auto simp: mid_def split: option.splits)
    from process_frame_heap_ok [OF assms(1) this] show ?thesis by simp
  qed
  then show ?thesis using handle_key_heap_ok [OF clicks_heap_ok k] by simp
qed

lemma run_heap_ok:
  "heap_ok st \<Longrightarrow> run bfg np a inps st = Continue st' \<Longrightarrow> heap_ok st'"
proof (induction inps arbitrary: st)
  case Nil
  then show ?case by simp
next
  case (Cons inp inps)
  from Cons.prems(2) obtain st1 where i: "iteration bfg np a inp st = Continue st1"
    and r: "run bfg np a inps st1 = Continue st'"
    by (auto split: outcome.splits)
  from Cons.IH [OF iteration_heap_ok [OF Cons.prems(1) i] r] show ?case .
qed

lemma reachable_heap_ok:
  assumes "main_init a fs = Continue st0" and "run bfg np a inps st0 = Continue st"
  shows "heap_ok st"
  using run_heap_ok [OF _ assms(2)] main_init_props [OF assms(1)] by blast

subsection \<open>The row log\<close>

text \<open>
  Claim C4 as stated fails: a zone added after the log was opened gains no header column,
  but every later row carries one more field. Here the log is opened with the zone A, a
  zone is drawn and closed during the first iteration, and the second row has five fields
  under a header of four.
\<close>

theorem late_zone_widens_rows:
  "log_of (main_run still zero_mean args_csv fs_one_zone [draw_and_close, just_frame]) =
     Some [''frame,count_total,avg_motion,A'' @ newline,
           ''0,0,0.00,0'' @ newline,
           ''1,0,0.00,0,0'' @ newline]"
  by code_simp

text \<open>
  Claim C4 (amended). The header is written once, when the log is opened, and lists
  \<open>frame\<close>, \<open>count_total\<close>, \<open>avg_motion\<close> and the names of the zones present then, in
  order. Every processed frame appends exactly one row: the frame index, the number of
  detections, the average motion with two decimals, then one count for each zone of the
  collection as it is at that frame. Neither a key nor a click writes to the log, so after
  any run the log is the header followed by one row for each processed frame.
\<close>

theorem csv_log:
  "(main_init a fs = Continue st0 \<longrightarrow>
      csv_f st0 = (if csv_enabled a then Some [csv_header (current_zones st0)] else None))
   \<and> (process_frame bfg np a img dets st = Continue st' \<and> csv_f st = Some ls \<longrightarrow>
        (\<exists>avg mv fg m.
            compute_motion_percent bfg np (history st) img dets (arg_bs_thresh a) = Inr (avg, mv, fg)
            \<and> zone_counts dets (current_zones st) = Inr m
            \<and> csv_f st' = Some (ls @ [csv_row (frame_idx st) dets avg m (current_zones st)])))
   \<and> (handle_key a k st = Continue st'' \<longrightarrow> csv_f st'' = csv_f st)
   \<and> csv_f (on_mouse p st) = csv_f st
   \<and> (main_init a fs = Continue st0 \<and> csv_enabled a \<and> run bfg np a inps st0 = Continue stn \<longrightarrow>
        (\<exists>rws. csv_f stn = Some (csv_header (current_zones st0) # rws)
               \<and> int (length rws) = frame_idx stn))"
proof (intro conjI impI)
  assume "main_init a fs = Continue st0"
  then show "csv_f st0 = (if csv_enabled a then Some [csv_header (current_zones st0)] else None)"
    using main_init_props by blast
next
  assume h: "process_frame bfg np a img dets st = Continue st' \<and> csv_f st = Some ls"
  from process_frame_log [of bfg np a img dets st st'] h
  show "\<exists>avg mv fg m.
            compute_motion_percent bfg np (history st) img dets (arg_bs_thresh a) = Inr (avg, mv, fg)
            \<and> zone_counts dets (current_zones st) = Inr m
            \<and> csv_f st' = Some (ls @ [csv_row (frame_idx st) dets avg m (current_zones st)])"
    by auto
next
  assume "handle_key a k st = Continue st''"
  then show "csv_f st'' = csv_f st" using handle_key_frame by blast
next
  show "csv_f (on_mouse p st) = csv_f st" by (simp add: on_mouse_def)
next
  assume h: "main_init a fs = Continue st0 \<and> csv_enabled a \<and> run bfg np a inps st0 = Continue stn"
  then have "csv_f st0 = Some [csv_header (current_zones st0)]" and "frame_idx st0 = 0"
    using main_init_props [of a fs st0] by auto
  then have "log_inv (csv_header (current_zones st0)) st0" by (simp add: log_inv_def)
  from run_log_inv [OF this] h
  show "\<exists>rws. csv_f stn = Some (csv_header (current_zones st0) # rws)
               \<and> int (length rws) = frame_idx stn"
    by (auto simp: log_inv_def)
qed

lemma main_init_csv_example:
  "main_init args_csv fs_one_zone = Continue (state_of (main_init args_csv fs_one_zone))"
proof -
  have "load_zones ''zones.json'' fs_one_zone = Inr (map raw_of_zone [zone_a])"
    and "zones_of_raw (map raw_of_zone [zone_a]) = Some [zone_a]"
    unfolding fs_one_zone_def
    by (simp_all only: load_zones_def save_zones_def py_iter_def load_records_zone_json
        zones_of_raw_roundtrip fun_upd_same option.case file_content.case json.case sum.case)
  then have "\<exists>st. main_init args_csv fs_one_zone = Continue st"
    by (simp add: main_init_def load_into_def args_csv_def empty_state_def split: prod.splits)
  then show ?thesis by (auto simp: state_of_def)
qed

theorem csv_log_witness:
  "main_init args_csv fs_one_zone = Continue (state_of (main_init args_csv fs_one_zone))
   \<and> csv_enabled args_csv
   \<and> csv_f (state_of (main_init args_csv fs_one_zone)) =
       Some [csv_header (current_zones (state_of (main_init args_csv fs_one_zone)))]
   \<and> csv_header [zone_a] = ''frame,count_total,avg_motion,A'' @ newline"
proof -
  have en: "csv_enabled args_csv" by (simp add: csv_enabled_def args_csv_def)
  have hd: "csv_header [zone_a] = ''frame,count_total,avg_motion,A'' @ newline"
    by (simp add: csv_header_def zone_a_def)
  from csv_log [of args_csv fs_one_zone "state_of (main_init args_csv fs_one_zone)"]
    main_init_csv_example en
  have "csv_f (state_of (main_init args_csv fs_one_zone)) =
       Some [csv_header (current_zones (state_of (main_init args_csv fs_one_zone)))]"
    by simp
  then show ?thesis using main_init_csv_example en hd by simp
qed

subsection \<open>Loading fails\<close>

lemma load_records_append:
  "load_records i (xs @ ys) =
     (case load_records i xs of
        Inl e \<Rightarrow> Inl e
      | Inr zs \<Rightarrow> (case load_records (i + length xs) ys of
                     Inl e \<Rightarrow> Inl e | Inr zs' \<Rightarrow> Inr (zs @ zs')))"
  by (induction xs arbitrary: i) (auto split: sum.splits)

text \<open>
  Claim C5 (amended). \<^verbatim>\<open>load_zones\<close> returns the empty list when no file exists at the
  path; a file that does not parse raises \<^verbatim>\<open>JSONDecodeError\<close>, and a record without its
  point list (after any number of well-formed records) raises \<^verbatim>\<open>KeyError\<close>. No handler
  surrounds the two calls in \<^verbatim>\<open>main\<close>: the exception ends the program, at the start and
  on the key \<^verbatim>\<open>l\<close> alike.
\<close>

theorem load_failure_aborts:
  "(fs p = None \<longrightarrow> load_zones p fs = Inr [])
   \<and> (fs p = Some Malformed \<longrightarrow> load_zones p fs = Inl JSONDecodeError)
   \<and> (fs p = Some (Document (JArr (map zone_json zs @ JObj kvs # ds)))
        \<and> map_of kvs ''points'' = None \<longrightarrow> load_zones p fs = Inl KeyError)
   \<and> (load_zones (arg_zones a) (files st) = Inl e \<longrightarrow> handle_key a (CHR ''l'') st = Raise e)
   \<and> (load_zones (arg_zones a) fs = Inl e \<longrightarrow> main_init a fs = Raise e)"
proof (intro conjI impI)
  assume "fs p = None"
  then show "load_zones p fs = Inr []" by (simp add: load_zones_def)
next
  assume "fs p = Some Malformed"
  then show "load_zones p fs = Inl JSONDecodeError" by (simp add: load_zones_def)
next
  assume h: "fs p = Some (Document (JArr (map zone_json zs @ JObj kvs # ds)))
        \<and> map_of kvs ''points'' = None"
  have "load_records (0 + length (map zone_json zs)) (JObj kvs # ds) = Inl KeyError"
    using h by (simp add: dict_get_def dict_item_def split: option.splits)
  then have "load_records 0 (map zone_json zs @ JObj kvs # ds) = Inl KeyError"
    by (simp only: load_records_append load_records_zone_json) simp
  then show "load_zones p fs = Inl KeyError" using h by (simp add: load_zones_def py_iter_def)
next
  assume "load_zones (arg_zones a) (files st) = Inl e"
  then show "handle_key a (CHR ''l'') st = Raise e" by (simp add: handle_key_def load_into_def)
next
  assume "load_zones (arg_zones a) fs = Inl e"
  then show "main_init a fs = Raise e" by (simp add: main_init_def load_into_def empty_state_def)
qed

text \<open>
  Claim C5 as stated fails: with a record that lacks its point list the program does not
  continue with an empty zone collection, it ends with the \<^verbatim>\<open>KeyError\<close>.
\<close>

theorem missing_points_aborts:
  "main_init args0 fs_no_points = Raise KeyError
   \<and> handle_key args0 (CHR ''l'') (idle_state\<lparr>files := fs_no_points\<rparr>) = Raise KeyError"
  by (simp add: main_init_def handle_key_def load_into_def load_zones_def fs_no_points_def args0_def
      empty_state_def idle_state_def py_iter_def dict_get_def dict_item_def)

theorem load_failure_aborts_witness:
  "fs_no_points ''zones.json'' = Some (Document (JArr (map zone_json [] @ JObj [(''name'', JStr ''A'')] # [])))
   \<and> map_of [(''name'', JStr ''A'')] ''points'' = None
   \<and> load_zones (arg_zones args0) fs_no_points = Inl KeyError
   \<and> main_init args0 fs_no_points = Raise KeyError
   \<and> Map.empty ''zones.json'' = None \<and> load_zones ''zones.json'' Map.empty = Inr []"
proof -
  have f: "fs_no_points ''zones.json'' =
           Some (Document (JArr (map zone_json [] @ JObj [(''name'', JStr ''A'')] # [])))"
    and k: "map_of [(''name'', JStr ''A'')] ''points'' = None"
    by (simp_all add: fs_no_points_def)
  have a: "arg_zones args0 = ''zones.json''" by (simp add: args0_def)
  from load_failure_aborts [of fs_no_points "''zones.json''" "[]" "[(''name'', JStr ''A'')]" "[]"
      args0 idle_state KeyError] f k
  have l: "load_zones ''zones.json'' fs_no_points = Inl KeyError" by blast
  from load_failure_aborts [of fs_no_points "''zones.json''" "[]" "[(''name'', JStr ''A'')]" "[]"
      args0 idle_state KeyError] l a
  have m: "main_init args0 fs_no_points = Raise KeyError" by simp
  from load_failure_aborts [of Map.empty "''zones.json''"]
  have e: "load_zones ''zones.json'' Map.empty = Inr []" by simp
  show ?thesis using f k l m e a by simp
qed

subsection \<open>Motion of a box outside the frame\<close>

lemma upt_2: "[0..<2] = [0, 1]"
  by (simp add: upt_rec)

text \<open>
  Claim C8. Without detections the average is \<open>0.0\<close> and the list of values is empty.
  For a box that lies wholly to the left of the frame the value is not \<open>0.0\<close>: the upper
  bound \<open>x + w\<close> is negative, the slice \<^verbatim>\<open>fgmask[y1:y2, x1:x2]\<close> counts it from the right
  edge, and the motion of that unrelated region is reported (here 100 percent for the box
  \<open>(-3, 0, 1, 2)\<close> on a 4 by 4 mask that moves everywhere).
\<close>

theorem negative_stop_wraps:
  "compute_motion_percent bfg np seen fr [] t = Inr (Fin 0, [], bfg seen fr)
   \<and> motion_value mask4 4 4 25 (- 3, 0, 1, 2, conf09) = Inr (Fin 100)
   \<and> compute_motion_percent always_mask4 np [] mask4 [(- 3, 0, 1, 2, conf09)] 25
       = Inr (np [Fin 100], [Fin 100], mask4)"
proof -
  have f4: "float_of_int 4 = Inr (Fin 4)" using float_of_int_exact [of 4] by simp
  have m: "fmul (Fin 100) (Fin 4) = Fin 400"
    using to_double_int [of 400] by (simp add: fmul_def is_inf_def signbit_def fval_def)
  have d: "fdiv (Fin 400) (Fin 4) = Inr (Fin 100)"
    using to_double_int [of 100] by (simp add: fdiv_def is_zero_def is_inf_def signbit_def fval_def)
  have roi: "slice2 mask4 0 2 0 (- 2) = \<lparr>rows = 2, cols = 2, pix = (\<lambda>r c. 255)\<rparr>"
    by (simp add: slice2_def slice_bound_def mask4_def)
  have mv: "motion_value mask4 4 4 25 (- 3, 0, 1, 2, conf09) = Inr (Fin 100)"
    by (simp add: motion_value_def roi image_size_def threshold_binary_def count_nonzero_def
        upt_2 f4 m d double_gt_zero_def)
  have r4: "rows mask4 = 4" "cols mask4 = 4" by (simp_all add: mask4_def)
  show ?thesis
    by (simp add: compute_motion_percent_def mv always_mask4_def r4)
qed

end
